theory Spec2Isabelle
  imports Main "HOL-Library.List_Lexorder" "HOL-Library.Product_Lexorder" "HOL-Library.Multiset"
    "HOL-Library.Word"
begin

section \<open>Adjacency matrices and Python errors\<close>

text \<open>
  An adjacency matrix of adg.py is a Python list of rows of (unbounded) integers; entry
  \<open>m[i][j]\<close> is the number of propagator lines from vertex \<open>i\<close> to vertex \<open>j\<close>.
  Every read \<open>m[i][j]\<close> with an index past the end raises \<open>IndexError\<close>; the
  model returns the error as a value. (The matrices of adg/diag.py are numpy arrays, see
  \<open>ndarray\<close> below; they are read the same way.)
\<close>

type_synonym matrix = "int list list"

datatype error = IndexError | KeyError | NameError | NetworkXError

definition entry :: "'a list list \<Rightarrow> nat \<Rightarrow> nat \<Rightarrow> error + 'a" where
  "entry m i j = (if i < length m \<and> j < length (m ! i) then Inr (m ! i ! j) else Inl IndexError)"

definition square :: "'a list list \<Rightarrow> bool" where
  "square m = list_all (\<lambda>row. length row = length m) m"

text \<open>\<open>del xs[i]\<close> for an index in range.\<close>

definition delete_at :: "nat \<Rightarrow> 'a list \<Rightarrow> 'a list" where
  "delete_at i xs = take i xs @ drop (Suc i) xs"

section \<open>The loop rule: \<open>no_loop\<close> of adg.py\<close>

text \<open>
  The inner loop \<open>for j in range(i+1)\<close>: the result \<open>True\<close> says that the
  \<open>break\<close> was reached (the test found both \<open>m[i][j]\<close> and \<open>m[j][i]\<close> non-zero).
  Python's \<open>and\<close> reads \<open>m[j][i]\<close> only when \<open>m[i][j]\<close> is non-zero.
\<close>

fun no_loop_inner :: "matrix \<Rightarrow> nat \<Rightarrow> nat list \<Rightarrow> error + bool" where
  "no_loop_inner m i [] = Inr False"
| "no_loop_inner m i (j # js) =
    (case entry m i j of
       Inl e \<Rightarrow> Inl e
     | Inr a \<Rightarrow>
        if a \<noteq> 0 then
          (case entry m j i of
             Inl e \<Rightarrow> Inl e
           | Inr b \<Rightarrow> if b \<noteq> 0 then Inr True else no_loop_inner m i js)
        else no_loop_inner m i js)"

text \<open>
  The outer loop \<open>for i in range(len(matrix[0]))\<close> threads the flag \<open>test\<close>: the
  \<open>break\<close> leaves the inner loop only, the outer loop goes on with \<open>test = False\<close>.
\<close>

fun no_loop_outer :: "matrix \<Rightarrow> nat list \<Rightarrow> bool \<Rightarrow> error + bool" where
  "no_loop_outer m [] test = Inr test"
| "no_loop_outer m (i # rest) test =
    (case no_loop_inner m i [0..<i + 1] of
       Inl e \<Rightarrow> Inl e
     | Inr hit \<Rightarrow> no_loop_outer m rest (if hit then False else test))"

definition no_loop_test :: "matrix \<Rightarrow> error + bool" where
  "no_loop_test m =
    (case m of
       [] \<Rightarrow> Inl IndexError
     | row # _ \<Rightarrow> no_loop_outer m [0..<length row] True)"

fun no_loop :: "matrix list \<Rightarrow> error + matrix list" where
  "no_loop [] = Inr []"
| "no_loop (m # ms) =
    (case no_loop_test m of
       Inl e \<Rightarrow> Inl e
     | Inr test \<Rightarrow>
        (case no_loop ms of
           Inl e \<Rightarrow> Inl e
         | Inr kept \<Rightarrow> Inr (if test then m # kept else kept)))"

text \<open>The two patterns the loop rule of the specification names.\<close>

definition has_two_cycle :: "matrix \<Rightarrow> bool" where
  "has_two_cycle m =
    (\<exists>i\<in>{0..<length m}. \<exists>j\<in>{0..<length m}. i \<noteq> j \<and> m ! i ! j \<noteq> 0 \<and> m ! j ! i \<noteq> 0)"

definition has_self_loop :: "matrix \<Rightarrow> bool" where
  "has_self_loop m = (\<exists>i\<in>{0..<length m}. m ! i ! i \<noteq> 0)"

section \<open>The degree rule: \<open>check_vertex_degree\<close> of adg/diag.py\<close>

text \<open>
  \<open>check_vertex_degree\<close> reads \<open>matrix.shape\<close>: its matrices are numpy arrays, as
  \<open>np.array(el)\<close> builds them from lists of Python integers, with elements of type
  \<open>int64\<close>. The sum of two such elements, and so the degree the function computes, is an
  \<open>int64\<close> again: it wraps around (numpy warns and goes on).
\<close>

type_synonym int64 = "64 word"

type_synonym ndarray = "int64 list list"

text \<open>
  The generator expression
  \<open>sum(matrix[index][vertex_id] + matrix[vertex_id][index] for index in range(shape[0]))\<close>:
  each term reads the column entry first, then the row entry; \<open>sum\<close> adds the terms to
  its start value 0 from left to right.
\<close>

fun sum_in_out :: "ndarray \<Rightarrow> nat \<Rightarrow> nat list \<Rightarrow> int64 \<Rightarrow> error + int64" where
  "sum_in_out matrix vertex_id [] acc = Inr acc"
| "sum_in_out matrix vertex_id (index # rest) acc =
    (case entry matrix index vertex_id of
       Inl e \<Rightarrow> Inl e
     | Inr a \<Rightarrow>
        (case entry matrix vertex_id index of
           Inl e \<Rightarrow> Inl e
         | Inr b \<Rightarrow> sum_in_out matrix vertex_id rest (acc + (a + b))))"

text \<open>\<open>vertex_degree -= matrix[vertex_id][vertex_id]\<close>: a diagonal entry counts once.\<close>

definition vertex_degree :: "ndarray \<Rightarrow> nat \<Rightarrow> error + int64" where
  "vertex_degree matrix vertex_id =
    (case sum_in_out matrix vertex_id [0..<length matrix] 0 of
       Inl e \<Rightarrow> Inl e
     | Inr s \<Rightarrow>
        (case entry matrix vertex_id vertex_id of Inl e \<Rightarrow> Inl e | Inr d \<Rightarrow> Inr (s - d)))"

definition authorized_deg :: "bool \<Rightarrow> bool \<Rightarrow> nat \<Rightarrow> int list" where
  "authorized_deg three_body_use canonical_only vertex_id =
    [4] @ (if three_body_use then [6] else [])
        @ (if \<not> canonical_only \<or> vertex_id = 0 then [2] else [])"

text \<open>
  The loop \<open>for i_mat in range(len(matrices)-1, -1, -1)\<close> deletes in place; the
  counter of the model is \<open>i_mat + 1\<close>. A deletion at \<open>i_mat\<close> moves only later
  elements, so \<open>i_mat\<close> stays in range. The degree is compared with Python integers
  (the authorized degrees, and \<open>2*nbody_max_observable\<close>) by its value, \<open>sint\<close>.
\<close>

fun check_vertex_degree_loop ::
  "bool \<Rightarrow> int \<Rightarrow> bool \<Rightarrow> nat \<Rightarrow> nat \<Rightarrow> ndarray list \<Rightarrow> error + ndarray list" where
  "check_vertex_degree_loop three_body_use nbody_max canonical_only v 0 matrices = Inr matrices"
| "check_vertex_degree_loop three_body_use nbody_max canonical_only v (Suc i_mat) matrices =
    (case vertex_degree (matrices ! i_mat) v of
       Inl e \<Rightarrow> Inl e
     | Inr d \<Rightarrow>
        check_vertex_degree_loop three_body_use nbody_max canonical_only v i_mat
          (if (v \<noteq> 0 \<and> sint d \<notin> set (authorized_deg three_body_use canonical_only v))
              \<or> (v = 0 \<and> sint d > 2 * nbody_max)
           then delete_at i_mat matrices else matrices))"

definition check_vertex_degree ::
  "ndarray list \<Rightarrow> bool \<Rightarrow> int \<Rightarrow> bool \<Rightarrow> nat \<Rightarrow> error + ndarray list" where
  "check_vertex_degree matrices three_body_use nbody_max_observable canonical_only vertex_id =
    check_vertex_degree_loop three_body_use nbody_max_observable canonical_only vertex_id
      (length matrices) matrices"

text \<open>
  The degree of the specification: the sum of the incoming and of the outgoing
  multiplicities of a vertex.
\<close>

definition in_degree_mat :: "matrix \<Rightarrow> nat \<Rightarrow> int" where
  "in_degree_mat m v = sum_list (map (\<lambda>i. m ! i ! v) [0..<length m])"

definition out_degree_mat :: "matrix \<Rightarrow> nat \<Rightarrow> int" where
  "out_degree_mat m v = sum_list (map (\<lambda>j. m ! v ! j) [0..<length m])"

definition total_degree :: "matrix \<Rightarrow> nat \<Rightarrow> int" where
  "total_degree m v = in_degree_mat m v + out_degree_mat m v"

text \<open>
  The integers an array holds, and the degree the code looks at, as an integer: a
  diagonal entry counts once. \<open>wrap_int64\<close> is the value an integer has as an \<open>int64\<close>.
\<close>

definition array_values :: "ndarray \<Rightarrow> matrix" where
  "array_values m = map (map sint) m"

definition exact_degree :: "ndarray \<Rightarrow> nat \<Rightarrow> int" where
  "exact_degree m v = total_degree (array_values m) v - array_values m ! v ! v"

definition wrap_int64 :: "int \<Rightarrow> int" where
  "wrap_int64 k = sint (word_of_int k :: int64)"

text \<open>
  The degree rule as the specification words it: exact membership in \<open>{2, 4}\<close>
  (and 6 with three-body vertices) for a vertex other than vertex 0, the bound
  \<open>2 * nbody_max\<close> for vertex 0.
\<close>

definition degree_rule_spec :: "bool \<Rightarrow> int \<Rightarrow> nat \<Rightarrow> ndarray \<Rightarrow> bool" where
  "degree_rule_spec three_body nbody_max v m =
    (let d = total_degree (array_values m) v in
     if v = 0 then d \<le> 2 * nbody_max
     else d = 2 \<or> d = 4 \<or> (three_body \<and> d = 6))"

text \<open>
  The rule the code applies to a degree \<open>d\<close>: degree 2 is open to a vertex other than
  vertex 0 only when \<open>canonical_only\<close> is off.
\<close>

definition degree_rule_code :: "bool \<Rightarrow> int \<Rightarrow> bool \<Rightarrow> nat \<Rightarrow> int \<Rightarrow> bool" where
  "degree_rule_code three_body nbody_max canonical_only v d =
    (if v = 0 then d \<le> 2 * nbody_max
     else d = 4 \<or> (three_body \<and> d = 6) \<or> (\<not> canonical_only \<and> d = 2))"


section \<open>The MBPT enumerator: \<open>seed\<close>, \<open>g\<close> and \<open>diagram_generation\<close> of adg.py\<close>

text \<open>
  \<open>itertools.permutations(xs)\<close>: the permutations in the order of the positions of
  \<open>xs\<close>, each element first in turn, followed by the permutations of the others.
\<close>

function itertools_permutations :: "'a list \<Rightarrow> 'a list list" where
  "itertools_permutations [] = [[]]"
| "itertools_permutations (x # xs) =
    concat (map (\<lambda>i. map ((#) ((x # xs) ! i)) (itertools_permutations (delete_at i (x # xs))))
                [0..<length (x # xs)])"
  by pat_completeness auto
termination
  by (relation "measure length") (auto simp: delete_at_def)

definition seed :: "nat \<Rightarrow> nat list list" where
  "seed n = itertools_permutations [0..<n]"

text \<open>
  \<open>[[0 if i != j else 1 for i in range(n)] for j in k]\<close>: row \<open>r\<close> of the matrix of the
  permutation \<open>k\<close> has its 1 in column \<open>k[r]\<close>.
\<close>

definition one_hot_rows :: "nat \<Rightarrow> nat list \<Rightarrow> matrix" where
  "one_hot_rows n k = map (\<lambda>j. map (\<lambda>i. if i \<noteq> j then 0 else 1) [0..<n]) k"

text \<open>
  \<open>g\<close>: the loop over \<open>enumerate(matrix)\<close> stops at the first row whose diagonal entry
  is 1. Reading \<open>row[i]\<close> past the end of a row raises \<open>IndexError\<close>.
\<close>

fun g_test :: "matrix \<Rightarrow> nat list \<Rightarrow> error + bool" where
  "g_test m [] = Inr True"
| "g_test m (i # rest) =
    (case entry m i i of
       Inl e \<Rightarrow> Inl e
     | Inr a \<Rightarrow> if a = 1 then Inr False else g_test m rest)"

fun g :: "matrix list \<Rightarrow> error + matrix list" where
  "g [] = Inr []"
| "g (m # ms) =
    (case g_test m [0..<length m] of
       Inl e \<Rightarrow> Inl e
     | Inr test \<Rightarrow>
        (case g ms of
           Inl e \<Rightarrow> Inl e
         | Inr traceless \<Rightarrow> Inr (if test then m # traceless else traceless)))"

text \<open>\<open>itertools.combinations_with_replacement(range(k), 2)\<close>.\<close>

definition combinations_with_replacement2 :: "nat \<Rightarrow> (nat \<times> nat) list" where
  "combinations_with_replacement2 k = concat (map (\<lambda>a. map (\<lambda>b. (a, b)) [a..<k]) [0..<k])"

text \<open>
  The double loop \<open>matrix[i][j] += elem\<close> over the rows and entries of the second
  matrix, on a copy of the first one. The two matrices come from the same list of
  \<open>n \<times> n\<close> matrices, so every index is in range.
\<close>

definition add_matrix :: "matrix \<Rightarrow> matrix \<Rightarrow> matrix" where
  "add_matrix a b = map2 (\<lambda>row line. map2 (\<lambda>x elem. x + elem) row line) a b"

text \<open>\<open>for i in double: if i not in doubleUniq: doubleUniq.append(i)\<close>.\<close>

fun append_if_new :: "'a list \<Rightarrow> 'a list \<Rightarrow> 'a list" where
  "append_if_new uniq [] = uniq"
| "append_if_new uniq (x # xs) = append_if_new (if x \<in> set uniq then uniq else uniq @ [x]) xs"

text \<open>
  \<open>list.sort(reverse=True)\<close> on nested lists of integers: Python compares lists
  lexicographically, as the order on lists here does. Equal matrices are the same value,
  so the stability of the sort is not visible.
\<close>

definition sort_reverse :: "matrix list \<Rightarrow> matrix list" where
  "sort_reverse ms = rev (sort ms)"

definition diagram_generation :: "nat \<Rightarrow> error + matrix list" where
  "diagram_generation n =
    (let seeds = seed n;
         all_matrices = map (one_hot_rows n) seeds
     in case g all_matrices of
          Inl e \<Rightarrow> Inl e
        | Inr traceless \<Rightarrow>
            (let coeffs = combinations_with_replacement2 (length traceless);
                 double = map (\<lambda>coef. add_matrix (traceless ! fst coef) (traceless ! snd coef)) coeffs;
                 doubleUniq = append_if_new [] double
             in Inr (sort_reverse doubleUniq)))"

text \<open>
  What the enumerator is meant to return: sums of two permutation matrices with zero
  diagonal. A permutation matrix is a square 0/1 matrix with exactly one 1 in every row and
  in every column.
\<close>

definition permutation_matrix :: "nat \<Rightarrow> matrix \<Rightarrow> bool" where
  "permutation_matrix n m =
    (length m = n \<and> list_all (\<lambda>row. length row = n \<and> list_all (\<lambda>x. x = 0 \<or> x = 1) row) m
     \<and> list_all (\<lambda>i. out_degree_mat m i = 1 \<and> in_degree_mat m i = 1) [0..<n])"

definition zero_diagonal :: "matrix \<Rightarrow> bool" where
  "zero_diagonal m = list_all (\<lambda>i. m ! i ! i = 0) [0..<length m]"

text \<open>
  Every vertex has in-degree 2 and out-degree 2 (total degree 4), every entry is 0, 1 or 2,
  and the diagonal is zero.
\<close>

definition two_regular :: "nat \<Rightarrow> matrix \<Rightarrow> bool" where
  "two_regular n m =
    (length m = n
     \<and> list_all (\<lambda>row. length row = n \<and> list_all (\<lambda>x. x = 0 \<or> x = 1 \<or> x = 2) row) m
     \<and> list_all (\<lambda>i. in_degree_mat m i = 2 \<and> out_degree_mat m i = 2
                      \<and> total_degree m i = 4 \<and> m ! i ! i = 0) [0..<n])"


section \<open>Graphs: the networkx \<open>MultiDiGraph\<close> of a diagram\<close>

text \<open>
  The graphs of the program have the nodes \<open>0, \<dots>, n - 1\<close>. A node carries the attribute
  \<open>operator\<close> once a labelling step has set it (\<open>None\<close>: not set). An edge is a triple of
  source, target and the attribute \<open>anomalous\<close>; an edge built from a matrix has no such
  attribute (\<open>None\<close>), which every matcher of the program reads as \<open>False\<close>.
\<close>

type_synonym edge = "nat \<times> nat \<times> bool option"

record graph =
  node_operator :: "bool option list"
  edges :: "edge list"

definition number_of_nodes :: "graph \<Rightarrow> nat" where
  "number_of_nodes gr = length (node_operator gr)"

definition number_of_edges :: "graph \<Rightarrow> nat" where
  "number_of_edges gr = length (edges gr)"

definition edge_count :: "graph \<Rightarrow> nat \<Rightarrow> nat \<Rightarrow> nat" where
  "edge_count gr u v = length (filter (\<lambda>e. fst e = u \<and> fst (snd e) = v) (edges gr))"

definition in_degree :: "graph \<Rightarrow> nat \<Rightarrow> nat" where
  "in_degree gr v = length (filter (\<lambda>e. fst (snd e) = v) (edges gr))"

definition out_degree :: "graph \<Rightarrow> nat \<Rightarrow> nat" where
  "out_degree gr v = length (filter (\<lambda>e. fst e = v) (edges gr))"

definition degree :: "graph \<Rightarrow> nat \<Rightarrow> nat" where
  "degree gr v = in_degree gr v + out_degree gr v"

text \<open>
  \<open>nx.from_numpy_matrix(a, create_using=nx.MultiDiGraph(), parallel_edges=True)\<close>: one
  node per index, and \<open>a[u][v]\<close> parallel edges from \<open>u\<close> to \<open>v\<close>, the non-zero entries
  taken row by row. A matrix that is not square is refused.
\<close>

definition from_numpy_matrix :: "matrix \<Rightarrow> error + graph" where
  "from_numpy_matrix a =
    (if square a then
       Inr \<lparr>node_operator = replicate (length a) None,
            edges = concat (map (\<lambda>u. concat (map (\<lambda>v. replicate (nat (a ! u ! v)) (u, v, None))
                                              [0..<length a]))
                                [0..<length a])\<rparr>
     else Inl NetworkXError)"

text \<open>
  \<open>nx.number_weakly_connected_components\<close>: the components of the graph with the
  direction of the edges forgotten. \<open>grow\<close> adds to a set of nodes the nodes one edge
  away; \<open>n\<close> rounds reach the whole component.
\<close>

definition grow :: "graph \<Rightarrow> nat list \<Rightarrow> nat list" where
  "grow gr vs =
    remdups (vs @ concat (map (\<lambda>e. (if fst e \<in> set vs then [fst (snd e)] else [])
                                  @ (if fst (snd e) \<in> set vs then [fst e] else []))
                              (edges gr)))"

definition component_of :: "graph \<Rightarrow> nat \<Rightarrow> nat list" where
  "component_of gr u = (grow gr ^^ number_of_nodes gr) [u]"

fun count_components :: "graph \<Rightarrow> nat list \<Rightarrow> nat list \<Rightarrow> nat" where
  "count_components gr [] seen = 0"
| "count_components gr (u # us) seen =
    (if u \<in> set seen then count_components gr us seen
     else Suc (count_components gr us (component_of gr u @ seen)))"

definition number_weakly_connected_components :: "graph \<Rightarrow> nat" where
  "number_weakly_connected_components gr = count_components gr [0..<number_of_nodes gr] []"

text \<open>
  The isomorphism test of networkx (\<open>nx.is_isomorphic\<close>, \<open>DiGraphMatcher.is_isomorphic\<close>)
  on multigraphs, given by what it decides: there is a bijection of the nodes that keeps
  the number of edges between every ordered pair of nodes (loops included); with
  \<open>node_match = categorical_node_match('operator', False)\<close> it also keeps the attribute
  \<open>operator\<close> (\<open>False\<close> when not set); with
  \<open>edge_match = categorical_multiedge_match('anomalous', False)\<close> the set of the values
  of \<open>anomalous\<close> on the parallel edges of every pair is kept as well. The bijection is the
  list \<open>p\<close>: node \<open>u\<close> goes to \<open>p ! u\<close>.
\<close>

definition operator_value :: "graph \<Rightarrow> nat \<Rightarrow> bool" where
  "operator_value gr u = (case node_operator gr ! u of None \<Rightarrow> False | Some b \<Rightarrow> b)"

definition anomalous_values :: "graph \<Rightarrow> nat \<Rightarrow> nat \<Rightarrow> bool \<times> bool" where
  "anomalous_values gr u v =
    ((u, v, Some True) \<in> set (edges gr),
     (u, v, Some False) \<in> set (edges gr) \<or> (u, v, None) \<in> set (edges gr))"

definition is_isomorphism :: "bool \<Rightarrow> bool \<Rightarrow> graph \<Rightarrow> graph \<Rightarrow> nat list \<Rightarrow> bool" where
  "is_isomorphism node_match edge_match g1 g2 p =
    list_all (\<lambda>u.
        (if node_match then operator_value g1 u = operator_value g2 (p ! u) else True)
        \<and> list_all (\<lambda>v.
              edge_count g1 u v = edge_count g2 (p ! u) (p ! v)
              \<and> (if edge_match
                  then anomalous_values g1 u v = anomalous_values g2 (p ! u) (p ! v)
                  else True))
            [0..<number_of_nodes g1])
      [0..<number_of_nodes g1]"

definition is_isomorphic :: "bool \<Rightarrow> bool \<Rightarrow> graph \<Rightarrow> graph \<Rightarrow> bool" where
  "is_isomorphic node_match edge_match g1 g2 =
    (number_of_nodes g1 = number_of_nodes g2
     \<and> list_ex (is_isomorphism node_match edge_match g1 g2)
          (itertools_permutations [0..<number_of_nodes g1]))"

section \<open>The degree check of adg.py: \<open>check_degree\<close>\<close>

text \<open>
  \<open>degree += matrix[i][j] + matrix[j][i]\<close> over \<open>j\<close>: a diagonal entry counts twice.
\<close>

fun sum_out_in :: "matrix \<Rightarrow> nat \<Rightarrow> nat list \<Rightarrow> int \<Rightarrow> error + int" where
  "sum_out_in m i [] acc = Inr acc"
| "sum_out_in m i (j # rest) acc =
    (case entry m i j of
       Inl e \<Rightarrow> Inl e
     | Inr a \<Rightarrow>
        (case entry m j i of
           Inl e \<Rightarrow> Inl e
         | Inr b \<Rightarrow> sum_out_in m i rest (acc + (a + b))))"

text \<open>
  The test shared by every degree filter of adg.py:
  \<open>if (degree != 2) and (degree != 4): if (three_N == False) or (degree != 6): test = False\<close>.
\<close>

definition degree_refused :: "bool \<Rightarrow> int \<Rightarrow> bool" where
  "degree_refused three_N d = (d \<noteq> 2 \<and> d \<noteq> 4 \<and> (three_N = False \<or> d \<noteq> 6))"

text \<open>The loop over \<open>i\<close> stops (\<open>break\<close>) at the first vertex whose degree is refused.\<close>

fun check_degree_test :: "bool \<Rightarrow> matrix \<Rightarrow> nat \<Rightarrow> nat list \<Rightarrow> error + bool" where
  "check_degree_test three_N m ncols [] = Inr True"
| "check_degree_test three_N m ncols (i # rest) =
    (case sum_out_in m i [0..<ncols] 0 of
       Inl e \<Rightarrow> Inl e
     | Inr d \<Rightarrow> if degree_refused three_N d then Inr False
                else check_degree_test three_N m ncols rest)"

fun check_degree :: "matrix list \<Rightarrow> bool \<Rightarrow> error + matrix list" where
  "check_degree [] three_N = Inr []"
| "check_degree (m # ms) three_N =
    (case (case m of [] \<Rightarrow> Inl IndexError
                   | row # _ \<Rightarrow> check_degree_test three_N m (length row) [0..<length row]) of
       Inl e \<Rightarrow> Inl e
     | Inr test \<Rightarrow>
        (case check_degree ms three_N of
           Inl e \<Rightarrow> Inl e
         | Inr deg_ok \<Rightarrow> Inr (if test then m # deg_ok else deg_ok)))"

section \<open>The BMBPT enumerators of adg.py\<close>

text \<open>
  The enumerators build their matrices themselves, \<open>p_order\<close> rows of \<open>p_order\<close> zeros,
  and read and write them at indices below \<open>p_order\<close> only, so no read inside them can
  raise. \<open>set_entry\<close> is \<open>temp_mat = copy.deepcopy(mat); temp_mat[i][j] = elem\<close>.
\<close>

definition empty_mat :: "nat \<Rightarrow> matrix" where
  "empty_mat p_order = replicate p_order (replicate p_order 0)"

definition set_entry :: "matrix \<Rightarrow> nat \<Rightarrow> nat \<Rightarrow> int \<Rightarrow> matrix" where
  "set_entry mat i j elem = mat[i := (mat ! i)[j := elem]]"

text \<open>
  \<open>elem = 1; while (elem + degree) <= deg_max: \<dots>; elem += 1\<close>: the values \<open>elem\<close>
  takes in the body of the loop.
\<close>

function while_elem :: "int \<Rightarrow> int \<Rightarrow> int \<Rightarrow> int list" where
  "while_elem elem d deg_max =
    (if elem + d \<le> deg_max then elem # while_elem (elem + 1) d deg_max else [])"
  by pat_completeness auto
termination
  by (relation "measure (\<lambda>(elem, d, deg_max). nat (deg_max - d - elem + 1))") auto

declare while_elem.simps [simp del]

text \<open>\<open>for k in range(1, p_order): j0_degree += mat[k][0]\<close>.\<close>

definition j0_degree :: "nat \<Rightarrow> matrix \<Rightarrow> int" where
  "j0_degree p_order mat = sum_list (map (\<lambda>k. mat ! k ! 0) [1..<p_order])"

text \<open>\<open>for k in range(0, p_order): vert_degree += mat[k][vertex] + mat[vertex][k]\<close>.\<close>

definition vert_degree :: "nat \<Rightarrow> matrix \<Rightarrow> nat \<Rightarrow> int" where
  "vert_degree p_order mat vertex =
    sum_list (map (\<lambda>k. mat ! k ! vertex + mat ! vertex ! k) [0..<p_order])"

definition branch_j0 :: "nat \<Rightarrow> int \<Rightarrow> nat \<Rightarrow> matrix list \<Rightarrow> matrix list" where
  "branch_j0 p_order deg_max i0 temp_matrices =
    concat (map (\<lambda>mat. mat # map (\<lambda>elem. set_entry mat i0 0 elem)
                                  (while_elem 1 (j0_degree p_order mat) deg_max))
                temp_matrices)"

text \<open>
  One pass of the inner loops: every matrix is kept, and where the entry \<open>[a][b]\<close> is
  zero the matrix branches on the value written at \<open>[b][a]\<close>.
\<close>

definition branch_pair :: "nat \<Rightarrow> int \<Rightarrow> nat \<Rightarrow> nat \<Rightarrow> nat \<Rightarrow> matrix list \<Rightarrow> matrix list" where
  "branch_pair p_order deg_max vertex a b temp_matrices =
    concat (map (\<lambda>mat. mat #
                   (if mat ! a ! b = 0
                    then map (\<lambda>elem. set_entry mat b a elem)
                             (while_elem 1 (vert_degree p_order mat vertex) deg_max)
                    else []))
                temp_matrices)"

definition branch_vertex :: "nat \<Rightarrow> bool \<Rightarrow> int \<Rightarrow> matrix list \<Rightarrow> nat \<Rightarrow> matrix list" where
  "branch_vertex p_order three_N deg_max temp_matrices vertex =
    (let branched =
           foldl (\<lambda>temp sum_index.
                    branch_pair p_order deg_max vertex sum_index vertex
                      (branch_pair p_order deg_max vertex vertex sum_index temp))
                 temp_matrices [vertex + 1..<p_order]
     in filter (\<lambda>matrix. \<not> degree_refused three_N (vert_degree p_order matrix vertex)) branched)"

definition finish_generation :: "matrix list \<Rightarrow> bool \<Rightarrow> error + matrix list" where
  "finish_generation matrices three_N =
    (case check_degree matrices three_N of
       Inl e \<Rightarrow> Inl e
     | Inr good_degree \<Rightarrow>
        (case no_loop good_degree of
           Inl e \<Rightarrow> Inl e
         | Inr mat_wo_loops \<Rightarrow> Inr (sort_reverse (append_if_new [] mat_wo_loops))))"

definition BMBPT_generation :: "nat \<Rightarrow> bool \<Rightarrow> error + matrix list" where
  "BMBPT_generation p_order three_N =
    (let deg_max = (if three_N then 6 else 4);
         temp_matrices = foldl (\<lambda>temp i0. branch_j0 p_order deg_max i0 temp)
                               [empty_mat p_order] [1..<p_order];
         deg_j0_ok = filter (\<lambda>matrix. \<not> degree_refused three_N (j0_degree p_order matrix))
                            temp_matrices;
         matrices = foldl (branch_vertex p_order three_N deg_max) deg_j0_ok [1..<p_order]
     in finish_generation matrices three_N)"

text \<open>
  \<open>BMBPT_Norm_generation\<close> assigns \<open>matrices\<close> inside the loop over the vertices only:
  with \<open>p_order = 0\<close> the name is unbound where \<open>check_degree\<close> is called.
\<close>

definition BMBPT_Norm_generation :: "nat \<Rightarrow> bool \<Rightarrow> error + matrix list" where
  "BMBPT_Norm_generation p_order three_N =
    (let deg_max = (if three_N then 6 else 4);
         matrices = foldl (branch_vertex p_order three_N deg_max) [empty_mat p_order] [0..<p_order]
     in if p_order = 0 then Inl NameError else finish_generation matrices three_N)"

section \<open>The script adg.py: connectivity, isomorphism reduction, classification\<close>

text \<open>
  The labelling of adg.py: every node gets \<open>operator = False\<close>, then node 0 gets
  \<open>True\<close>; a graph without node 0 raises \<open>KeyError\<close>.
\<close>

definition label_operator :: "graph \<Rightarrow> error + graph" where
  "label_operator diag =
    (if number_of_nodes diag = 0 then Inl KeyError
     else Inr (diag\<lparr>node_operator := (map (\<lambda>_. Some False) (node_operator diag))[0 := Some True]\<rparr>))"

text \<open>
  The reduction loop of the BMBPT branch. With \<open>G1\<close> empty the first diagram is taken
  as it is; a later one is taken when it is isomorphic to none of \<open>G1\<close>.
\<close>

fun isomorphism_reduction :: "bool \<Rightarrow> graph list \<Rightarrow> graph list \<Rightarrow> error + graph list" where
  "isomorphism_reduction norm [] G1 = Inr G1"
| "isomorphism_reduction norm (diag # rest) G1 =
    (case (if norm = False then label_operator diag else Inr diag) of
       Inl e \<Rightarrow> Inl e
     | Inr diag' \<Rightarrow>
        isomorphism_reduction norm rest
          (if G1 = [] then G1 @ [diag']
           else if list_ex (\<lambda>good_diag. is_isomorphic (\<not> norm) False diag' good_diag) G1 then G1
           else G1 @ [diag']))"

text \<open>
  A list the reduction loop has nothing to do on: no graph matches an earlier one, and
  the labelling of the loop changes none of them.
\<close>

definition reduced :: "bool \<Rightarrow> graph list \<Rightarrow> bool" where
  "reduced norm G1 =
    (sorted_wrt (\<lambda>a b. \<not> is_isomorphic (\<not> norm) False b a) G1
     \<and> (\<forall>diag\<in>set G1. (if norm = False then label_operator diag else Inr diag) = Inr diag))"

definition max_deg :: "graph \<Rightarrow> nat" where
  "max_deg diag = foldl (\<lambda>acc node. max acc (degree diag node)) 0 [0..<number_of_nodes diag]"

text \<open>
  \<open>test_HF\<close>: no node of degree 2; \<open>test_EHF\<close>: no node of degree 2 but, at most,
  node 0.
\<close>

definition test_HF :: "graph \<Rightarrow> bool" where
  "test_HF diag = list_all (\<lambda>node. degree diag node \<noteq> 2) [0..<number_of_nodes diag]"

definition test_EHF :: "graph \<Rightarrow> bool" where
  "test_EHF diag =
    list_all (\<lambda>node. \<not> (degree diag node = 2 \<and> node \<noteq> 0)) [0..<number_of_nodes diag]"

record classification =
  G2_HF :: "graph list"
  G2_EHF :: "graph list"
  G2_noHF :: "graph list"
  G3_HF :: "graph list"
  G3_EHF :: "graph list"
  G3_noHF :: "graph list"

definition classify :: "bool \<Rightarrow> graph list \<Rightarrow> classification" where
  "classify norm G =
    (let G3 = filter (\<lambda>diag. max_deg diag = 6) G;
         G2 = filter (\<lambda>diag. max_deg diag \<noteq> 6) G;
         is_HF = test_HF;
         is_noHF = (\<lambda>diag. \<not> test_HF diag \<and> (test_EHF diag = False \<or> norm));
         is_EHF = (\<lambda>diag. \<not> test_HF diag \<and> \<not> (test_EHF diag = False \<or> norm))
     in \<lparr>G2_HF = filter is_HF G2, G2_EHF = filter is_EHF G2, G2_noHF = filter is_noHF G2,
         G3_HF = filter is_HF G3, G3_EHF = filter is_EHF G3, G3_noHF = filter is_noHF G3\<rparr>)"

text \<open>
  What the script holds after the classification block: the final list \<open>G\<close>, the count
  \<open>numdiag\<close>, and for BMBPT the six buckets (MBPT has none).
\<close>

record adg_result =
  G :: "graph list"
  numdiag :: nat
  buckets :: "classification option"

fun graphs_of :: "matrix list \<Rightarrow> error + graph list" where
  "graphs_of [] = Inr []"
| "graphs_of (diagram # rest) =
    (case from_numpy_matrix diagram of
       Inl e \<Rightarrow> Inl e
     | Inr gr \<Rightarrow> (case graphs_of rest of Inl e \<Rightarrow> Inl e | Inr grs \<Rightarrow> Inr (gr # grs)))"

definition generate :: "string \<Rightarrow> nat \<Rightarrow> bool \<Rightarrow> bool \<Rightarrow> error + matrix list" where
  "generate theory norder three_N norm =
    (if theory = ''MBPT'' then diagram_generation norder
     else if theory = ''BMBPT'' then
       (if norm then BMBPT_Norm_generation norder three_N else BMBPT_generation norder three_N)
     else Inl NameError)"

definition adg :: "string \<Rightarrow> nat \<Rightarrow> bool \<Rightarrow> bool \<Rightarrow> error + adg_result" where
  "adg theory norder three_N norm =
    (case generate theory norder three_N norm of
       Inl e \<Rightarrow> Inl e
     | Inr diagrams \<Rightarrow>
        (case graphs_of diagrams of
           Inl e \<Rightarrow> Inl e
         | Inr G0 \<Rightarrow>
            (let G1 = filter (\<lambda>diag. number_weakly_connected_components diag = 1) G0
             in if theory = ''BMBPT'' then
                  (case isomorphism_reduction norm G1 [] of
                     Inl e \<Rightarrow> Inl e
                   | Inr G2 \<Rightarrow>
                      (let c = classify norm G2
                       in Inr \<lparr>G = G2_HF c @ G2_EHF c @ G2_noHF c @ G3_HF c @ G3_EHF c @ G3_noHF c,
                               numdiag = length G2, buckets = Some c\<rparr>))
                else Inr \<lparr>G = G1, numdiag = length G1, buckets = None\<rparr>)))"


section \<open>Vertex labelling: \<open>label_vertices\<close>\<close>

text \<open>
  adg/diag.py. The condition \<open>theory_type == "BMBPT" or "PBMBPT"\<close> is Python's
  \<open>(theory_type == "BMBPT") or "PBMBPT"\<close>: when the comparison is false its value is the
  string \<open>"PBMBPT"\<close>, and a string is true when it is not empty.
  \<open>graph.node[0]\<close> raises \<open>KeyError\<close> on a graph without node 0.
\<close>

definition truthy :: "string \<Rightarrow> bool" where
  "truthy s = (s \<noteq> [])"

definition label_graph :: "graph \<Rightarrow> string \<Rightarrow> error + graph" where
  "label_graph gr theory_type =
    (let cleared = gr\<lparr>node_operator := map (\<lambda>_. Some False) (node_operator gr)\<rparr>
     in if theory_type = ''BMBPT'' \<or> truthy ''PBMBPT'' then
          (if number_of_nodes cleared = 0 then Inl KeyError
           else Inr (cleared\<lparr>node_operator := (node_operator cleared)[0 := Some True]\<rparr>))
        else Inr cleared)"

fun label_vertices :: "graph list \<Rightarrow> string \<Rightarrow> error + graph list" where
  "label_vertices [] theory_type = Inr []"
| "label_vertices (gr # graphs_list) theory_type =
    (case label_graph gr theory_type of
       Inl e \<Rightarrow> Inl e
     | Inr gr' \<Rightarrow>
        (case label_vertices graphs_list theory_type of
           Inl e \<Rightarrow> Inl e
         | Inr rest \<Rightarrow> Inr (gr' # rest)))"

text \<open>
  methods.py, the earlier version of the same step, with the norm-kernel flag:
  \<open>if (theory_type == "BMBPT") and not study_norm\<close>.
\<close>

definition label_graph_methods :: "graph \<Rightarrow> string \<Rightarrow> bool \<Rightarrow> error + graph" where
  "label_graph_methods gr theory_type study_norm =
    (let cleared = gr\<lparr>node_operator := map (\<lambda>_. Some False) (node_operator gr)\<rparr>
     in if theory_type = ''BMBPT'' \<and> \<not> study_norm then
          (if number_of_nodes cleared = 0 then Inl KeyError
           else Inr (cleared\<lparr>node_operator := (node_operator cleared)[0 := Some True]\<rparr>))
        else Inr cleared)"

fun label_vertices_methods :: "graph list \<Rightarrow> string \<Rightarrow> bool \<Rightarrow> error + graph list" where
  "label_vertices_methods [] theory_type study_norm = Inr []"
| "label_vertices_methods (gr # diagrams_list) theory_type study_norm =
    (case label_graph_methods gr theory_type study_norm of
       Inl e \<Rightarrow> Inl e
     | Inr gr' \<Rightarrow>
        (case label_vertices_methods diagrams_list theory_type study_norm of
           Inl e \<Rightarrow> Inl e
         | Inr rest \<Rightarrow> Inr (gr' # rest)))"


section \<open>Diagrams: the class \<open>Diagram\<close> of adg/diag.py\<close>

text \<open>
  \<open>cls\<close> records what \<open>isinstance(d, adg.pbmbpt.ProjectedBmbptDiagram)\<close> answers. The
  constructor fails on a graph without nodes (\<open>self.degrees[-1]\<close> of an empty tuple).
  Python sorts the pairs of \<open>unsort_io_degrees\<close> lexicographically, as the order on pairs
  here does.
\<close>

datatype diagram_class = Diagram | ProjectedBmbptDiagram

record diagram =
  cls :: diagram_class
  graph :: graph
  unsort_degrees :: "nat list"
  degrees :: "nat list"
  unsort_io_degrees :: "(nat \<times> nat) list"
  io_degrees :: "(nat \<times> nat) list"
  max_degree :: nat
  tags :: "int list"

definition io_degrees_of :: "graph \<Rightarrow> (nat \<times> nat) list" where
  "io_degrees_of gr = sort (map (\<lambda>node. (in_degree gr node, out_degree gr node))
                              [0..<number_of_nodes gr])"

definition Diagram_init :: "graph \<Rightarrow> error + diagram" where
  "Diagram_init nx_graph =
    (if number_of_nodes nx_graph = 0 then Inl IndexError
     else Inr \<lparr>cls = Diagram,
               graph = nx_graph,
               unsort_degrees = map (degree nx_graph) [0..<number_of_nodes nx_graph],
               degrees = sort (map (degree nx_graph) [0..<number_of_nodes nx_graph]),
               unsort_io_degrees = map (\<lambda>node. (in_degree nx_graph node, out_degree nx_graph node))
                                       [0..<number_of_nodes nx_graph],
               io_degrees = io_degrees_of nx_graph,
               max_degree = last (sort (map (degree nx_graph) [0..<number_of_nodes nx_graph])),
               tags = [0]\<rparr>)"

section \<open>The dump of the adjacency matrices: \<open>print_adj_matrices\<close> of adg/diag.py\<close>

text \<open>Python's \<open>"%i" % k\<close> and \<open>"%d" % k\<close>: the decimal digits, after a minus sign if negative.\<close>

definition digit_char :: "nat \<Rightarrow> char" where
  "digit_char d = ''0123456789'' ! d"

function str_nat :: "nat \<Rightarrow> string" where
  "str_nat k = (if k < 10 then [digit_char k] else str_nat (k div 10) @ [digit_char (k mod 10)])"
  by pat_completeness auto
termination
  by (relation "measure id") auto

declare str_nat.simps [simp del]

definition str_int :: "int \<Rightarrow> string" where
  "str_int k = (if k < 0 then CHR ''-'' # str_nat (nat (- k)) else str_nat (nat k))"

text \<open>
  \<open>nx.to_numpy_matrix(gr, dtype=int)\<close>: the entry \<open>[u][v]\<close> is the sum of the weights of
  the edges from \<open>u\<close> to \<open>v\<close>; every edge of the program has weight 1, so the entry is the
  number of these edges. (The graph of a \<open>Diagram\<close> has nodes: the constructor fails
  otherwise.)
\<close>

definition to_numpy_matrix :: "graph \<Rightarrow> matrix" where
  "to_numpy_matrix gr =
    map (\<lambda>u. map (\<lambda>v. int (edge_count gr u v)) [0..<number_of_nodes gr])
        [0..<number_of_nodes gr]"

text \<open>
  \<open>numpy.savetxt(f, m, fmt='%d')\<close>: every row on a line of its own, the entries joined by
  one space.
\<close>

fun join_space :: "string list \<Rightarrow> string" where
  "join_space [] = []"
| "join_space [t] = t"
| "join_space (t # ts) = t @ '' '' @ join_space ts"

definition savetxt_row :: "int list \<Rightarrow> string" where
  "savetxt_row row = join_space (map str_int row) @ [CHR 0x0A]"

definition savetxt :: "matrix \<Rightarrow> string" where
  "savetxt m = concat (map savetxt_row m)"

text \<open>\<open>"Diagram n: %i\n" % (idx + 1)\<close>, without its newline.\<close>

definition header_text :: "nat \<Rightarrow> string" where
  "header_text idx = ''Diagram n: '' @ str_int (int idx + 1)"

definition block_text :: "nat \<Rightarrow> matrix \<Rightarrow> string" where
  "block_text idx m = header_text idx @ [CHR 0x0A] @ savetxt m @ [CHR 0x0A]"

text \<open>
  The loop over \<open>enumerate(diagrams)\<close>; the result is the content of
  \<open>adjacency_matrices.txt\<close>.
\<close>

fun print_adj_matrices_from :: "nat \<Rightarrow> diagram list \<Rightarrow> string" where
  "print_adj_matrices_from idx [] = []"
| "print_adj_matrices_from idx (d # diagrams) =
    block_text idx (to_numpy_matrix (graph d)) @ print_adj_matrices_from (idx + 1) diagrams"

definition print_adj_matrices :: "diagram list \<Rightarrow> string" where
  "print_adj_matrices diagrams = print_adj_matrices_from 0 diagrams"

section \<open>A reader for the dump\<close>

text \<open>
  Modelled from the spec: the sources hold no reader of the dump. The specification gives
  the format only (section 6: one block per diagram, a header line naming the diagram's
  index, the matrix as whitespace-separated integers, one row per line, a blank line after
  the block); the reader below reads exactly that format and refuses anything else.
\<close>

fun position_from :: "nat \<Rightarrow> 'a list \<Rightarrow> 'a \<Rightarrow> nat option" where
  "position_from i [] c = None"
| "position_from i (x # xs) c = (if x = c then Some i else position_from (Suc i) xs c)"

definition digit_value :: "char \<Rightarrow> nat option" where
  "digit_value c = position_from 0 ''0123456789'' c"

fun parse_digits :: "nat \<Rightarrow> string \<Rightarrow> nat option" where
  "parse_digits acc [] = Some acc"
| "parse_digits acc (c # cs) =
    (case digit_value c of None \<Rightarrow> None | Some d \<Rightarrow> parse_digits (10 * acc + d) cs)"

definition parse_nat :: "string \<Rightarrow> nat option" where
  "parse_nat s = (if s = [] then None else parse_digits 0 s)"

definition parse_int :: "string \<Rightarrow> int option" where
  "parse_int s =
    (case s of
       [] \<Rightarrow> None
     | c # cs \<Rightarrow> if c = CHR ''-'' then map_option (\<lambda>k. - int k) (parse_nat cs)
                 else map_option int (parse_nat s))"

text \<open>The words of a line: maximal runs of characters other than the space.\<close>

fun split_words :: "string \<Rightarrow> string \<Rightarrow> string list" where
  "split_words cur [] = (if cur = [] then [] else [cur])"
| "split_words cur (c # cs) =
    (if c = CHR '' '' then (if cur = [] then split_words [] cs else cur # split_words [] cs)
     else split_words (cur @ [c]) cs)"

text \<open>The lines of a text: each is ended by a newline.\<close>

fun split_lines :: "string \<Rightarrow> string \<Rightarrow> string list" where
  "split_lines cur [] = (if cur = [] then [] else [cur])"
| "split_lines cur (c # cs) =
    (if c = CHR 0x0A then cur # split_lines [] cs else split_lines (cur @ [c]) cs)"

fun parse_all :: "('a \<Rightarrow> 'b option) \<Rightarrow> 'a list \<Rightarrow> 'b list option" where
  "parse_all f [] = Some []"
| "parse_all f (x # xs) =
    (case f x of
       None \<Rightarrow> None
     | Some y \<Rightarrow> (case parse_all f xs of None \<Rightarrow> None | Some ys \<Rightarrow> Some (y # ys)))"

definition parse_row :: "string \<Rightarrow> int list option" where
  "parse_row line = parse_all parse_int (split_words [] line)"

definition parse_header :: "string \<Rightarrow> nat option" where
  "parse_header line =
    (if take 11 line = ''Diagram n: '' then parse_nat (drop 11 line) else None)"

text \<open>
  The reader goes through the lines with the blocks read so far and the block being read
  (its index and its rows so far): a header opens a block, a blank line closes it.
\<close>

fun parse_lines ::
  "(nat \<times> matrix) list \<Rightarrow> (nat \<times> matrix) option \<Rightarrow> string list \<Rightarrow> (nat \<times> matrix) list option" where
  "parse_lines blocks None [] = Some blocks"
| "parse_lines blocks (Some cur) [] = None"
| "parse_lines blocks None (line # rest) =
    (case parse_header line of
       None \<Rightarrow> None
     | Some idx \<Rightarrow> parse_lines blocks (Some (idx, [])) rest)"
| "parse_lines blocks (Some cur) (line # rest) =
    (if line = [] then parse_lines (blocks @ [cur]) None rest
     else (case parse_row line of
             None \<Rightarrow> None
           | Some row \<Rightarrow> parse_lines blocks (Some (fst cur, snd cur @ [row])) rest))"

definition parse_dump :: "string \<Rightarrow> (nat \<times> matrix) list option" where
  "parse_dump text = parse_lines [] None (split_lines [] text)"

text \<open>The adjacency matrix of a diagram.\<close>

definition adjacency :: "diagram \<Rightarrow> matrix" where
  "adjacency d = to_numpy_matrix (graph d)"

text \<open>A token of a row: not empty, and free of the space and of the newline.\<close>

definition plain_token :: "string \<Rightarrow> bool" where
  "plain_token s = (s \<noteq> [] \<and> CHR '' '' \<notin> set s \<and> CHR 0x0A \<notin> set s)"


section \<open>The canonicalizer: \<open>topologically_distinct_diagrams\<close> of adg/diag.py\<close>

text \<open>
  \<open>create_checkable_diagram\<close>: a copy of the graph where every anomalous propagator
  that is not a loop also runs the other way. The first loop reads \<open>prop[3]['anomalous']\<close>
  of every propagator and raises \<open>KeyError\<close> at a propagator without the attribute;
  \<open>props_to_add\<close> is the list it builds.
\<close>

fun props_to_add :: "edge list \<Rightarrow> error + (nat \<times> nat) list" where
  "props_to_add [] = Inr []"
| "props_to_add (prop # rest) =
    (case snd (snd prop) of
       None \<Rightarrow> Inl KeyError
     | Some anomalous \<Rightarrow>
        (case props_to_add rest of
           Inl e \<Rightarrow> Inl e
         | Inr props \<Rightarrow>
            Inr (if anomalous \<and> \<not> fst prop = fst (snd prop)
                 then (fst (snd prop), fst prop) # props else props)))"

definition create_checkable_diagram :: "graph \<Rightarrow> error + graph" where
  "create_checkable_diagram pbmbpt_graph =
    (case props_to_add (edges pbmbpt_graph) of
       Inl e \<Rightarrow> Inl e
     | Inr props \<Rightarrow>
        Inr (pbmbpt_graph\<lparr>edges := edges pbmbpt_graph
               @ map (\<lambda>prop. (fst prop, snd prop, Some True)) props\<rparr>))"

text \<open>
  The test of the inner loop on the diagram \<open>d\<close> at \<open>i_diag\<close> and the diagram \<open>c\<close> at
  \<open>i_comp_diag\<close>: equal \<open>io_degrees\<close> first; then, when \<open>d\<close> is a
  \<open>ProjectedBmbptDiagram\<close>, the matcher on the two doubled graphs with the node match and
  the edge match, and otherwise the matcher on the graphs with the node match only.
\<close>

definition same_topology :: "diagram \<Rightarrow> diagram \<Rightarrow> error + bool" where
  "same_topology d c =
    (if io_degrees d = io_degrees c then
       (if cls d = ProjectedBmbptDiagram then
          (case create_checkable_diagram (graph d) of
             Inl e \<Rightarrow> Inl e
           | Inr doubled_graph \<Rightarrow>
              (case create_checkable_diagram (graph c) of
                 Inl e \<Rightarrow> Inl e
               | Inr doubled_comp_diag \<Rightarrow>
                  Inr (is_isomorphic True True doubled_graph doubled_comp_diag)))
        else Inr (is_isomorphic True False (graph d) (graph c)))
     else Inr False)"

text \<open>
  The inner loop \<open>for i_comp_diag in range(len(diagrams)-1, i_diag, -1)\<close>; the counter of
  the model is \<open>i_comp_diag + 1\<close>. On the first match the tags of the later diagram are
  appended to those of the earlier one, the later diagram is deleted, and the loop ends
  (\<open>break\<close>). The permutations a \<open>TimeStructureDiagram\<close> keeps (a class and an attribute
  defined outside these sources, updated from the mapping the matcher happened to find)
  touch neither the tags nor the graphs and are left out.
\<close>

fun compare_later :: "diagram list \<Rightarrow> nat \<Rightarrow> nat \<Rightarrow> error + diagram list" where
  "compare_later diagrams i_diag 0 = Inr diagrams"
| "compare_later diagrams i_diag (Suc i_comp_diag) =
    (if i_comp_diag \<le> i_diag then Inr diagrams
     else
       (case same_topology (diagrams ! i_diag) (diagrams ! i_comp_diag) of
          Inl e \<Rightarrow> Inl e
        | Inr is_isomorphic_now \<Rightarrow>
           if is_isomorphic_now then
             Inr (delete_at i_comp_diag
                   (diagrams[i_diag := (diagrams ! i_diag)
                      \<lparr>tags := tags (diagrams ! i_diag) @ tags (diagrams ! i_comp_diag)\<rparr>]))
           else compare_later diagrams i_diag i_comp_diag))"

text \<open>
  The outer loop \<open>for i_diag in range(len(diagrams)-1, -1, -1)\<close>, its range fixed at the
  start; the counter of the model is \<open>i_diag + 1\<close>.
\<close>

fun distinct_loop :: "nat \<Rightarrow> diagram list \<Rightarrow> error + diagram list" where
  "distinct_loop 0 diagrams = Inr diagrams"
| "distinct_loop (Suc i_diag) diagrams =
    (case compare_later diagrams i_diag (length diagrams) of
       Inl e \<Rightarrow> Inl e
     | Inr diagrams' \<Rightarrow> distinct_loop i_diag diagrams')"

definition topologically_distinct_diagrams :: "diagram list \<Rightarrow> error + diagram list" where
  "topologically_distinct_diagrams diagrams = distinct_loop (length diagrams) diagrams"

text \<open>
  \<open>matched d c\<close>: the test of the inner loop on \<open>d\<close> and \<open>c\<close> ends, and with a match.
\<close>

definition matched :: "diagram \<Rightarrow> diagram \<Rightarrow> bool" where
  "matched d c = (same_topology d c = Inr True)"

text \<open>
  The same loops as recursion on lists, for the proofs. \<open>absorb d later\<close> is what the inner
  loop does with the diagram \<open>d\<close> and the diagrams after it, given from the last one
  backwards.
\<close>

fun absorb :: "diagram \<Rightarrow> diagram list \<Rightarrow> diagram \<times> diagram list" where
  "absorb d [] = (d, [])"
| "absorb d (c # cs) =
    (if matched d c then (d\<lparr>tags := tags d @ tags c\<rparr>, cs)
     else (fst (absorb d cs), c # snd (absorb d cs)))"

definition canon_step :: "diagram \<Rightarrow> diagram list \<Rightarrow> diagram list" where
  "canon_step d later = fst (absorb d (rev later)) # rev (snd (absorb d (rev later)))"


text \<open>
  What the canonicalizer is given. Every propagator of a graph carries the attribute
  \<open>anomalous\<close> (as the propagators of a \<open>ProjectedBmbptDiagram\<close> do;
  \<open>create_checkable_diagram\<close> raises otherwise). For the statement about the matcher
  alone: the edges of a graph join nodes of the graph, and the cached \<open>io_degrees\<close> are
  those of the graph (as the constructor computes them).
\<close>

definition has_anomalous_attribute :: "graph \<Rightarrow> bool" where
  "has_anomalous_attribute gr = list_all (\<lambda>prop. snd (snd prop) \<noteq> None) (edges gr)"

definition well_formed_graph :: "graph \<Rightarrow> bool" where
  "well_formed_graph gr =
    list_all (\<lambda>e. fst e < number_of_nodes gr \<and> fst (snd e) < number_of_nodes gr) (edges gr)"


text \<open>
  The lists the test of the inner loop cannot fail on: plain diagrams only (their graphs
  are never doubled), or graphs whose propagators all carry the attribute.
\<close>

definition checkable :: "diagram list \<Rightarrow> bool" where
  "checkable ds =
    ((\<forall>d\<in>set ds. cls d = Diagram) \<or> (\<forall>d\<in>set ds. has_anomalous_attribute (graph d)))"

text \<open>An isomorphism as a function on the nodes, for the proofs.\<close>

definition isomorphism_on :: "bool \<Rightarrow> bool \<Rightarrow> graph \<Rightarrow> graph \<Rightarrow> (nat \<Rightarrow> nat) \<Rightarrow> bool" where
  "isomorphism_on node_match edge_match g1 g2 f =
    (number_of_nodes g1 = number_of_nodes g2
     \<and> bij_betw f {0..<number_of_nodes g1} {0..<number_of_nodes g1}
     \<and> (\<forall>u\<in>{0..<number_of_nodes g1}.
          (node_match \<longrightarrow> operator_value g1 u = operator_value g2 (f u))
          \<and> (\<forall>v\<in>{0..<number_of_nodes g1}.
                edge_count g1 u v = edge_count g2 (f u) (f v)
                \<and> (edge_match \<longrightarrow> anomalous_values g1 u v = anomalous_values g2 (f u) (f v)))))"

text \<open>The tags of a list of diagrams, all together.\<close>

definition all_tags :: "diagram list \<Rightarrow> int list" where
  "all_tags ds = concat (map tags ds)"


section \<open>The dump written by the script adg.py\<close>

text \<open>
  \<open>np.savetxt(f, diagram)\<close> with numpy's default format \<open>'%.18e'\<close>, on an integer
  entry: one digit, the point, 18 digits, the exponent with its sign and at least two
  digits. The model is exact for entries below \<open>10^15\<close> in absolute value (the entries of
  the program are at most 6).
\<close>

definition format_e18 :: "int \<Rightarrow> string" where
  "format_e18 k =
    (let ds = str_nat (nat \<bar>k\<bar>);
         ex = length ds - 1
     in (if k < 0 then ''-'' else '''') @ [hd ds] @ ''.'' @ take 18 (tl ds @ replicate 18 (CHR ''0''))
        @ ''e+'' @ (if ex < 10 then ''0'' else '''') @ str_nat ex)"

text \<open>
  The loop of the script: \<open>f.write("Diagram n: %i" % i)\<close> (no newline), the matrix by
  \<open>np.savetxt\<close>, then \<open>f.write("\n")\<close>.
\<close>

fun diagrams_list_from :: "nat \<Rightarrow> matrix list \<Rightarrow> string" where
  "diagrams_list_from i [] = []"
| "diagrams_list_from i (diagram # diagrams) =
    ''Diagram n: '' @ str_int (int i)
    @ concat (map (\<lambda>row. join_space (map format_e18 row) @ [CHR 0x0A]) diagram)
    @ [CHR 0x0A] @ diagrams_list_from (i + 1) diagrams"

definition diagrams_list :: "matrix list \<Rightarrow> string" where
  "diagrams_list diagrams = diagrams_list_from 0 diagrams"


section \<open>Properties of the loop rule\<close>

lemma entry_square:
  assumes "square m" "i < length m" "j < length m"
  shows "entry m i j = Inr (m ! i ! j)"
  using assms by (simp add: entry_def square_def list_all_length)

lemma no_loop_inner_square:
  assumes "square m" "i < length m" "\<forall>j\<in>set js. j < length m"
  shows "no_loop_inner m i js = Inr (\<exists>j\<in>set js. m ! i ! j \<noteq> 0 \<and> m ! j ! i \<noteq> 0)"
  using assms(3)
proof (induction js)
  case Nil
  show ?case by simp
next
  case (Cons j js)
  then have j: "j < length m" and rest: "\<forall>k\<in>set js. k < length m" by simp_all
  show ?case
    using Cons.IH [OF rest] entry_square [OF assms(1) assms(2) j]
      entry_square [OF assms(1) j assms(2)]
    by auto
qed

lemma no_loop_outer_square:
  assumes "square m" "\<forall>i\<in>set rows. i < length m"
  shows "no_loop_outer m rows test =
    Inr (test \<and> \<not> (\<exists>i\<in>set rows. \<exists>j\<in>{0..<i + 1}. m ! i ! j \<noteq> 0 \<and> m ! j ! i \<noteq> 0))"
  using assms(2)
proof (induction rows arbitrary: test)
  case Nil
  show ?case by simp
next
  case (Cons i rows)
  then have i: "i < length m" and rest: "\<forall>k\<in>set rows. k < length m" by simp_all
  have js: "\<forall>j\<in>set [0..<i + 1]. j < length m" using i by auto
  have "no_loop_inner m i [0..<i + 1] =
      Inr (\<exists>j\<in>{0..<i + 1}. m ! i ! j \<noteq> 0 \<and> m ! j ! i \<noteq> 0)"
    using no_loop_inner_square [OF assms(1) i js] by (simp del: upt_Suc)
  then show ?case
    using Cons.IH [OF rest] by (auto simp del: upt_Suc)
qed

lemma lower_triangle_iff:
  "(\<exists>i\<in>{0..<n::nat}. \<exists>j\<in>{0..<i + 1}. P i j \<and> P j i) \<longleftrightarrow>
   (\<exists>i\<in>{0..<n}. \<exists>j\<in>{0..<n}. i \<noteq> j \<and> P i j \<and> P j i) \<or> (\<exists>i\<in>{0..<n}. P i i)"
  (is "?L \<longleftrightarrow> ?A \<or> ?B")
proof
  assume ?L
  then obtain i j where mem: "i \<in> {0..<n}" "j \<in> {0..<i + 1}" and p: "P i j" "P j i"
    by blast
  from mem have ij: "i < n" "j \<le> i" by simp_all
  show "?A \<or> ?B"
  proof (cases "i = j")
    case True
    with mem p show ?thesis by blast
  next
    case False
    from ij have "j \<in> {0..<n}" by simp
    with mem(1) p False show ?thesis by blast
  qed
next
  assume "?A \<or> ?B"
  then show ?L
  proof
    assume ?A
    then obtain i j where mem: "i \<in> {0..<n}" "j \<in> {0..<n}" and ne: "i \<noteq> j"
      and p: "P i j" "P j i"
      by blast
    show ?thesis
    proof (cases "j < i")
      case True
      then have "j \<in> {0..<i + 1}" by simp
      with mem(1) p show ?thesis by blast
    next
      case False
      with ne have "i \<in> {0..<j + 1}" by simp
      with mem(2) p show ?thesis by blast
    qed
  next
    assume ?B
    then obtain i where mem: "i \<in> {0..<n}" and p: "P i i" by blast
    have "i \<in> {0..<i + 1}" by simp
    with mem p show ?thesis by blast
  qed
qed
lemma no_loop_test_square:
  assumes "m \<noteq> []" "square m"
  shows "no_loop_test m = Inr (\<not> has_two_cycle m \<and> \<not> has_self_loop m)"
proof -
  obtain row rest where m: "m = row # rest" using assms(1) by (cases m) auto
  have len: "length row = length m" using assms(2) by (simp add: m square_def)
  have rows: "\<forall>i\<in>set [0..<length m]. i < length m" by simp
  have "no_loop_test m = no_loop_outer m [0..<length m] True"
    using len by (simp add: no_loop_test_def m)
  also have "\<dots> = Inr (\<not> (\<exists>i\<in>{0..<length m}. \<exists>j\<in>{0..<i + 1}.
      m ! i ! j \<noteq> 0 \<and> m ! j ! i \<noteq> 0))"
    using no_loop_outer_square [OF assms(2) rows, of True] by simp
  also have "\<dots> = Inr (\<not> has_two_cycle m \<and> \<not> has_self_loop m)"
    unfolding has_two_cycle_def has_self_loop_def
    using lower_triangle_iff [of "length m" "\<lambda>i j. m ! i ! j \<noteq> 0"] by simp
  finally show ?thesis .
qed

text \<open>
  C8. On non-empty square matrices the loop rule returns, and what it returns is the input
  list without exactly the matrices that hold a directed 2-cycle (both \<open>[i][j]\<close> and
  \<open>[j][i]\<close> non-zero for some \<open>i \<noteq> j\<close>) or a non-zero diagonal entry; the other matrices
  stay, unmodified and in their order.
\<close>

theorem no_loop_removes_exactly_loops:
  assumes "\<forall>m\<in>set ms. m \<noteq> [] \<and> square m"
  shows "no_loop ms = Inr (filter (\<lambda>m. \<not> has_two_cycle m \<and> \<not> has_self_loop m) ms)"
  using assms
proof (induction ms)
  case Nil
  show ?case by simp
next
  case (Cons m ms)
  then have m: "m \<noteq> []" "square m" and rest: "\<forall>k\<in>set ms. k \<noteq> [] \<and> square k" by simp_all
  show ?case
    using Cons.IH [OF rest] no_loop_test_square [OF m] by simp
qed

theorem no_loop_removes_exactly_loops_witness:
  "no_loop [[[0, 1], [0, 0]], [[0, 1], [2, 0]], [[1, 0], [0, 0]], [[0, 0], [3, 0]]]
     = Inr [[[0, 1], [0, 0]], [[0, 0], [3, 0]]]"
proof -
  let ?ms = "[[[0, 1], [0, 0]], [[0, 1], [2, 0]], [[1, 0], [0, 0]], [[0, 0], [3, 0::int]]]"
  have pre: "\<forall>m\<in>set ?ms. m \<noteq> [] \<and> square m"
    by (simp add: square_def)
  have kept: "filter (\<lambda>m. \<not> has_two_cycle m \<and> \<not> has_self_loop m) ?ms
      = [[[0, 1], [0, 0]], [[0, 0], [3, 0]]]"
    by code_simp
  show ?thesis
    by (rule trans [OF no_loop_removes_exactly_loops [OF pre]]) (simp only: kept)
qed

section \<open>Properties of the degree rule\<close>

lemma sum_in_out_square:
  assumes "square m" "v < length m" "\<forall>i\<in>set idx. i < length m"
  shows "sum_in_out m v idx acc = Inr (acc + sum_list (map (\<lambda>i. m ! i ! v + m ! v ! i) idx))"
  using assms(3)
proof (induction idx arbitrary: acc)
  case Nil
  show ?case by simp
next
  case (Cons i idx)
  from Cons.prems have i: "i < length m" and rest: "\<forall>k\<in>set idx. k < length m" by simp_all
  show ?case
    using Cons.IH [OF rest] entry_square [OF assms(1) i assms(2)]
      entry_square [OF assms(1) assms(2) i]
    by (simp add: add.assoc)
qed

lemma sum_list_map_add:
  "sum_list (map (\<lambda>i. f i + h i) xs) = sum_list (map f xs) + (sum_list (map h xs) :: int)"
  by (induction xs) simp_all

lemma of_int_sum_list_sint:
  "(word_of_int (sum_list (map (\<lambda>i. sint (f i) + sint (h i)) xs)) :: int64)
     = sum_list (map (\<lambda>i. f i + h i) xs)"
  by (induction xs) simp_all

text \<open>The degree the code computes is the exact degree, taken as an \<open>int64\<close>.\<close>

lemma vertex_degree_square:
  assumes "square m" "v < length m"
  shows "vertex_degree m v = Inr (word_of_int (exact_degree m v))"
proof -
  have idx: "\<forall>i\<in>set [0..<length m]. i < length m" by simp
  have rows: "length (m ! i) = length m" if "i < length m" for i
    using assms(1) that by (simp add: square_def list_all_iff)
  have "sum_list (map (\<lambda>i. array_values m ! i ! v) [0..<length m])
      = sum_list (map (\<lambda>i. sint (m ! i ! v)) [0..<length m])"
    using assms(2) rows by (intro arg_cong [where f = sum_list] map_cong) (simp_all add: array_values_def)
  moreover have "sum_list (map (\<lambda>i. array_values m ! v ! i) [0..<length m])
      = sum_list (map (\<lambda>i. sint (m ! v ! i)) [0..<length m])"
    using assms(2) rows by (intro arg_cong [where f = sum_list] map_cong) (simp_all add: array_values_def)
  ultimately have "total_degree (array_values m) v
      = sum_list (map (\<lambda>i. sint (m ! i ! v) + sint (m ! v ! i)) [0..<length m])"
    by (simp add: total_degree_def in_degree_mat_def out_degree_mat_def sum_list_map_add
        array_values_def)
  moreover have "array_values m ! v ! v = sint (m ! v ! v)"
    using assms(2) rows [of v] by (simp add: array_values_def)
  ultimately have "(word_of_int (exact_degree m v) :: int64)
      = sum_list (map (\<lambda>i. m ! i ! v + m ! v ! i) [0..<length m]) - m ! v ! v"
    by (simp add: exact_degree_def of_int_sum_list_sint)
  then show ?thesis
    unfolding vertex_degree_def
    using sum_in_out_square [OF assms idx, of 0] entry_square [OF assms(1) assms(2) assms(2)]
    by simp
qed

lemma wrap_int64_exact:
  "- (2 ^ 63) \<le> k \<Longrightarrow> k < 2 ^ 63 \<Longrightarrow> wrap_int64 k = k"
  unfolding wrap_int64_def by (simp add: sint_sbintrunc' signed_take_bit_int_eq_self)

lemma delete_at_set: "set (delete_at i xs) \<subseteq> set xs"
  unfolding delete_at_def by (auto dest: in_set_takeD in_set_dropD)

lemma delete_at_length: "i < length xs \<Longrightarrow> length (delete_at i xs) = length xs - 1"
  unfolding delete_at_def by simp

lemma delete_at_take: "i \<le> length xs \<Longrightarrow> take i (delete_at i xs) = take i xs"
  unfolding delete_at_def by simp

lemma delete_at_drop: "i \<le> length xs \<Longrightarrow> drop i (delete_at i xs) = drop (Suc i) xs"
  unfolding delete_at_def by simp

lemma check_vertex_degree_loop_filter:
  assumes "\<forall>m\<in>set ms. square m \<and> v < length m" "k \<le> length ms"
  shows "check_vertex_degree_loop three nb canon v k ms =
    Inr (filter (\<lambda>m. degree_rule_code three nb canon v (wrap_int64 (exact_degree m v))) (take k ms)
         @ drop k ms)"
  using assms
proof (induction k arbitrary: ms)
  case 0
  show ?case by simp
next
  case (Suc k)
  then have k: "k < length ms" by simp
  then have mem: "ms ! k \<in> set ms" by simp
  with Suc.prems have sq: "square (ms ! k)" "v < length (ms ! k)" by blast+
  let ?keep = "\<lambda>m. degree_rule_code three nb canon v (wrap_int64 (exact_degree m v))"
  let ?d = "wrap_int64 (exact_degree (ms ! k) v)"
  let ?bad = "(v \<noteq> 0 \<and> ?d \<notin> set (authorized_deg three canon v)) \<or> (v = 0 \<and> ?d > 2 * nb)"
  have bad_iff: "?bad \<longleftrightarrow> \<not> ?keep (ms ! k)"
    by (auto simp: degree_rule_code_def authorized_deg_def)
  have tk: "take (Suc k) ms = take k ms @ [ms ! k]"
    using k by (simp add: take_Suc_conv_app_nth)
  have step: "check_vertex_degree_loop three nb canon v (Suc k) ms =
      check_vertex_degree_loop three nb canon v k (if ?bad then delete_at k ms else ms)"
    using vertex_degree_square [OF sq] by (simp add: wrap_int64_def)
  show ?case
  proof (cases ?bad)
    case True
    have wf': "\<forall>m\<in>set (delete_at k ms). square m \<and> v < length m"
      using Suc.prems(1) delete_at_set [of k ms] by blast
    have len': "k \<le> length (delete_at k ms)"
      using k by (simp add: delete_at_length)
    have "check_vertex_degree_loop three nb canon v (Suc k) ms =
        check_vertex_degree_loop three nb canon v k (delete_at k ms)"
      by (subst step) (simp only: True if_True)
    also have "\<dots> = Inr (filter ?keep (take k ms) @ drop (Suc k) ms)"
      using Suc.IH [OF wf' len'] k by (simp add: delete_at_take delete_at_drop)
    finally have eq: "check_vertex_degree_loop three nb canon v (Suc k) ms =
        Inr (filter ?keep (take k ms) @ drop (Suc k) ms)" .
    have drop: "\<not> ?keep (ms ! k)"
      using True bad_iff by blast
    have tgt: "filter ?keep (take (Suc k) ms) @ drop (Suc k) ms =
        filter ?keep (take k ms) @ drop (Suc k) ms"
      using drop by (simp add: tk)
    show ?thesis by (simp only: eq tgt)
  next
    case False
    have len': "k \<le> length ms" using k by simp
    have "check_vertex_degree_loop three nb canon v (Suc k) ms =
        check_vertex_degree_loop three nb canon v k ms"
      by (subst step) (simp only: False if_False)
    also have "\<dots> = Inr (filter ?keep (take k ms) @ drop k ms)"
      using Suc.IH [OF Suc.prems(1) len'] .
    finally have eq: "check_vertex_degree_loop three nb canon v (Suc k) ms =
        Inr (filter ?keep (take k ms) @ drop k ms)" .
    have keep: "?keep (ms ! k)"
      using False bad_iff by blast
    have tgt: "filter ?keep (take (Suc k) ms) @ drop (Suc k) ms =
        filter ?keep (take k ms) @ drop k ms"
      using keep k by (simp add: tk Cons_nth_drop_Suc)
    show ?thesis by (simp only: eq tgt)
  qed
qed

text \<open>
  C3 (as amended). On square matrices that have the vertex, \<open>check_vertex_degree\<close>
  returns, and it keeps exactly the matrices where the degree of the vertex is: at most
  \<open>2 * nbody_max_observable\<close> for vertex 0; for another vertex exactly 4, or 6 with
  three-body vertices, or 2 when \<open>canonical_only\<close> is off. The kept matrices are
  unmodified and in their order. The degree is the sum of the incoming and outgoing
  multiplicities, a diagonal entry counted once, as the 64-bit integer numpy computes; it
  is the exact sum whenever that lies between \<open>-2^63\<close> and \<open>2^63 - 1\<close>.
\<close>

theorem check_vertex_degree_keeps:
  assumes "\<forall>m\<in>set ms. square m \<and> v < length m"
  shows "check_vertex_degree ms three nb canon v =
      Inr (filter (\<lambda>m. degree_rule_code three nb canon v (wrap_int64 (exact_degree m v))) ms)
    \<and> ((\<forall>m\<in>set ms. - (2 ^ 63) \<le> exact_degree m v \<and> exact_degree m v < 2 ^ 63) \<longrightarrow>
        check_vertex_degree ms three nb canon v =
          Inr (filter (\<lambda>m. degree_rule_code three nb canon v (exact_degree m v)) ms))"
proof -
  have wrapped: "check_vertex_degree ms three nb canon v =
      Inr (filter (\<lambda>m. degree_rule_code three nb canon v (wrap_int64 (exact_degree m v))) ms)"
    unfolding check_vertex_degree_def
    using check_vertex_degree_loop_filter [OF assms, of "length ms" three nb canon] by simp
  have "filter (\<lambda>m. degree_rule_code three nb canon v (wrap_int64 (exact_degree m v))) ms
      = filter (\<lambda>m. degree_rule_code three nb canon v (exact_degree m v)) ms"
    if "\<forall>m\<in>set ms. - (2 ^ 63) \<le> exact_degree m v \<and> exact_degree m v < 2 ^ 63"
    using that by (intro filter_cong) (simp_all add: wrap_int64_exact)
  with wrapped show ?thesis by simp
qed

lemma check_vertex_degree_witness_values:
  "filter (\<lambda>m. degree_rule_code True 3 False 0 (exact_degree m 0))
     [[[0, 1, 2], [1, 0, 1], [0, 2, 0]], [[2, 0, 2], [1, 2, 3], [1, 0, 0]],
      [[0, 1, 3], [2, 0, 8], [2, 1, 0]]]
   = [[[0, 1, 2], [1, 0, 1], [0, 2, 0]], [[2, 0, 2], [1, 2, 3], [1, 0, 0]]]"
  by code_simp

lemma check_vertex_degree_witness_range:
  "list_all (\<lambda>m. - (2 ^ 63) \<le> exact_degree m 0 \<and> exact_degree m 0 < 2 ^ 63)
     [[[0, 1, 2], [1, 0, 1], [0, 2, 0]], [[2, 0, 2], [1, 2, 3], [1, 0, 0]],
      [[0, 1, 3], [2, 0, 8], [2, 1, 0]]]"
  by code_simp

text \<open>The doctest of \<open>check_vertex_degree\<close>, first call.\<close>

theorem check_vertex_degree_keeps_witness:
  "check_vertex_degree
     [[[0, 1, 2], [1, 0, 1], [0, 2, 0]], [[2, 0, 2], [1, 2, 3], [1, 0, 0]],
      [[0, 1, 3], [2, 0, 8], [2, 1, 0]]] True 3 False 0
   = Inr [[[0, 1, 2], [1, 0, 1], [0, 2, 0]], [[2, 0, 2], [1, 2, 3], [1, 0, 0]]]"
proof -
  let ?ms = "[[[0, 1, 2], [1, 0, 1], [0, 2, 0]], [[2, 0, 2], [1, 2, 3], [1, 0, 0]],
      [[0, 1, 3], [2, 0, 8], [2, 1, 0::int64]]]"
  have pre: "\<forall>m\<in>set ?ms. square m \<and> 0 < length m"
    by (simp add: square_def)
  have range: "\<forall>m\<in>set ?ms. - (2 ^ 63) \<le> exact_degree m 0 \<and> exact_degree m 0 < 2 ^ 63"
    using check_vertex_degree_witness_range by (simp only: list_all_iff)
  from check_vertex_degree_keeps [OF pre, of True 3 False] range
  have "check_vertex_degree ?ms True 3 False 0 =
      Inr (filter (\<lambda>m. degree_rule_code True 3 False 0 (exact_degree m 0)) ?ms)"
    by blast
  then show ?thesis by (simp only: check_vertex_degree_witness_values)
qed

text \<open>
  The claim as the specification words it fails when \<open>canonical_only\<close> is on: vertex 1
  of the matrix below has degree 2, which the specification's rule admits, and the code
  deletes the matrix.
\<close>

theorem check_vertex_degree_counterexample:
  "check_vertex_degree [[[0, 1], [1, 0]]] False 2 True 1
     \<noteq> Inr (filter (degree_rule_spec False 2 1) [[[0, 1], [1, 0]]])"
  by code_simp

text \<open>
  Where the exact degree leaves the range of \<open>int64\<close> the code follows the wrapped value:
  the degree of vertex 0 below is \<open>2^63\<close>, which wraps to \<open>-2^63\<close>, and the matrix is kept.
\<close>

lemma check_vertex_degree_wraps:
  "check_vertex_degree [[[0, 2 ^ 62], [2 ^ 62, 0]]] False 2 False 0
     = Inr [[[0, 2 ^ 62], [2 ^ 62, 0]]]
   \<and> exact_degree [[0, 2 ^ 62], [2 ^ 62, 0]] 0 = 2 ^ 63
   \<and> wrap_int64 (2 ^ 63) = - (2 ^ 63)"
  by code_simp


section \<open>Properties of the MBPT enumerator\<close>

lemma mset_delete_at:
  assumes "i < length xs"
  shows "add_mset (xs ! i) (mset (delete_at i xs)) = mset xs"
proof -
  have "xs = take i xs @ xs ! i # drop (Suc i) xs"
    using assms by (rule id_take_nth_drop)
  then have "mset xs = mset (take i xs @ xs ! i # drop (Suc i) xs)" by simp
  then show ?thesis by (simp add: delete_at_def)
qed

lemma itertools_permutations_mset:
  "ys \<in> set (itertools_permutations xs) \<Longrightarrow> mset ys = mset xs"
proof (induction xs arbitrary: ys rule: itertools_permutations.induct)
  case 1
  then show ?case by simp
next
  case (2 x xs)
  from "2.prems" obtain i zs where i: "i < length (x # xs)"
    and zs: "zs \<in> set (itertools_permutations (delete_at i (x # xs)))"
    and ys: "ys = (x # xs) ! i # zs"
    by (auto simp del: upt_Suc)
  have "i \<in> set [0..<length (x # xs)]" using i by (simp del: upt_Suc)
  from "2.IH" [OF this zs] have "mset zs = mset (delete_at i (x # xs))" .
  with ys mset_delete_at [OF i] show ?case by simp
qed

lemma seed_permutation:
  assumes "k \<in> set (seed n)"
  shows "length k = n" "distinct k" "set k = {0..<n}"
proof -
  have ms: "mset k = mset [0..<n]"
    using assms unfolding seed_def by (rule itertools_permutations_mset)
  show "length k = n" using mset_eq_length [OF ms] by simp
  show "distinct k" using mset_eq_imp_distinct_iff [OF ms] by simp
  show "set k = {0..<n}" using mset_eq_setD [OF ms] by simp
qed

lemma sum_one_hot_row:
  "sum_list (map (\<lambda>i. if i \<noteq> j then 0 else (1::int)) [0..<n]) = (if j < n then 1 else 0)"
  by (induction n) auto

lemma sum_one_hot_col:
  "distinct k \<Longrightarrow>
   sum_list (map (\<lambda>j. if c \<noteq> j then 0 else (1::int)) k) = (if c \<in> set k then 1 else 0)"
  by (induction k) auto

lemma one_hot_rows_nth:
  "r < length k \<Longrightarrow> c < n \<Longrightarrow> one_hot_rows n k ! r ! c = (if c \<noteq> k ! r then 0 else 1)"
  by (simp add: one_hot_rows_def)

lemma one_hot_rows_permutation_matrix:
  assumes "k \<in> set (seed n)"
  shows "permutation_matrix n (one_hot_rows n k)"
proof -
  note k = seed_permutation [OF assms]
  have shape: "length (one_hot_rows n k) = n"
    "list_all (\<lambda>row. length row = n \<and> list_all (\<lambda>x. x = 0 \<or> x = 1) row) (one_hot_rows n k)"
    using k(1) by (auto simp: one_hot_rows_def list_all_iff)
  have deg: "out_degree_mat (one_hot_rows n k) i = 1 \<and> in_degree_mat (one_hot_rows n k) i = 1"
    if i: "i < n" for i
  proof
    have ki: "k ! i < n" using k i by (metis atLeastLessThan_iff nth_mem)
    have "out_degree_mat (one_hot_rows n k) i
        = sum_list (map (\<lambda>j. if j \<noteq> k ! i then 0 else 1) [0..<n])"
      unfolding out_degree_mat_def shape(1)
      using i k(1) by (intro arg_cong [where f = sum_list] map_cong) (simp_all add: one_hot_rows_nth)
    then show "out_degree_mat (one_hot_rows n k) i = 1"
      using ki by (simp add: sum_one_hot_row)
    have "in_degree_mat (one_hot_rows n k) i
        = sum_list (map (\<lambda>r. if i \<noteq> k ! r then 0 else 1) [0..<n])"
      unfolding in_degree_mat_def shape(1)
      using i k(1) by (intro arg_cong [where f = sum_list] map_cong) (simp_all add: one_hot_rows_nth)
    also have "\<dots> = sum_list (map (\<lambda>j. if i \<noteq> j then 0 else 1) (map ((!) k) [0..<n]))"
      by (simp add: comp_def)
    also have "map ((!) k) [0..<n] = k"
      using k(1) by (metis map_nth)
    finally show "in_degree_mat (one_hot_rows n k) i = 1"
      using sum_one_hot_col [OF k(2), of i] k(3) i by simp
  qed
  show ?thesis
    unfolding permutation_matrix_def using shape deg by (simp add: list_all_iff)
qed

lemma permutation_matrix_square: "permutation_matrix n m \<Longrightarrow> square m"
  by (simp add: permutation_matrix_def square_def list_all_iff)

lemma g_test_square:
  assumes "square m" "\<forall>i\<in>set idx. i < length m"
  shows "g_test m idx = Inr (\<forall>i\<in>set idx. m ! i ! i \<noteq> 1)"
  using assms(2)
proof (induction idx)
  case Nil
  show ?case by simp
next
  case (Cons i idx)
  then have i: "i < length m" and rest: "\<forall>j\<in>set idx. j < length m" by simp_all
  show ?case
    using Cons.IH [OF rest] entry_square [OF assms(1) i i] by simp
qed

lemma g_square:
  assumes "\<forall>m\<in>set ms. square m"
  shows "g ms = Inr (filter (\<lambda>m. \<forall>i\<in>{0..<length m}. m ! i ! i \<noteq> 1) ms)"
  using assms
proof (induction ms)
  case Nil
  show ?case by simp
next
  case (Cons m ms)
  then have m: "square m" and rest: "\<forall>k\<in>set ms. square k" by simp_all
  have idx: "\<forall>i\<in>set [0..<length m]. i < length m" by simp
  show ?case
    using Cons.IH [OF rest] g_test_square [OF m idx] by simp
qed

lemma permutation_matrix_entries:
  assumes "permutation_matrix n m" "i < n" "j < n"
  shows "m ! i ! j = 0 \<or> m ! i ! j = 1"
proof -
  have "length m = n" using assms(1) by (simp add: permutation_matrix_def)
  then have "m ! i \<in> set m" using assms(2) by simp
  then have row: "length (m ! i) = n" "\<forall>x\<in>set (m ! i). x = 0 \<or> x = 1"
    using assms(1) by (auto simp: permutation_matrix_def list_all_iff)
  then have "m ! i ! j \<in> set (m ! i)" using assms(3) by simp
  with row(2) show ?thesis by blast
qed

lemma traceless_zero_diagonal:
  assumes "permutation_matrix n m" "\<forall>i\<in>{0..<length m}. m ! i ! i \<noteq> 1"
  shows "zero_diagonal m"
proof -
  have len: "length m = n" using assms(1) by (simp add: permutation_matrix_def)
  have "m ! i ! i = 0" if "i < n" for i
    using permutation_matrix_entries [OF assms(1) that that] assms(2) that len by auto
  then show ?thesis by (simp add: zero_diagonal_def list_all_iff len)
qed

lemma append_if_new_set: "set (append_if_new uniq xs) = set uniq \<union> set xs"
  by (induction xs arbitrary: uniq) auto

lemma sort_reverse_set: "set (sort_reverse ms) = set ms"
  by (simp add: sort_reverse_def)

lemma combinations_with_replacement2_bound:
  "(a, b) \<in> set (combinations_with_replacement2 k) \<Longrightarrow> a < k \<and> b < k"
  by (auto simp: combinations_with_replacement2_def)

lemma add_matrix_shape:
  assumes "length a = n" "length b = n"
    "\<forall>row\<in>set a. length row = n" "\<forall>row\<in>set b. length row = n"
  shows "length (add_matrix a b) = n" "\<forall>row\<in>set (add_matrix a b). length row = n"
    "\<And>i j. i < n \<Longrightarrow> j < n \<Longrightarrow> add_matrix a b ! i ! j = a ! i ! j + b ! i ! j"
proof -
  show "length (add_matrix a b) = n" using assms by (simp add: add_matrix_def)
  show "\<forall>row\<in>set (add_matrix a b). length row = n"
    using assms by (auto simp: add_matrix_def set_zip)
  fix i j assume "i < n" "j < n"
  then show "add_matrix a b ! i ! j = a ! i ! j + b ! i ! j"
    using assms by (simp add: add_matrix_def)
qed

lemma degree_add_matrix:
  assumes "length a = n" "length b = n"
    "\<forall>row\<in>set a. length row = n" "\<forall>row\<in>set b. length row = n" "v < n"
  shows "out_degree_mat (add_matrix a b) v = out_degree_mat a v + out_degree_mat b v"
    and "in_degree_mat (add_matrix a b) v = in_degree_mat a v + in_degree_mat b v"
proof -
  note sh = add_matrix_shape [OF assms(1-4)]
  have "out_degree_mat (add_matrix a b) v
      = sum_list (map (\<lambda>j. a ! v ! j + b ! v ! j) [0..<n])"
    unfolding out_degree_mat_def sh(1)
    using assms(5) by (intro arg_cong [where f = sum_list] map_cong) (simp_all add: sh(3))
  then show "out_degree_mat (add_matrix a b) v = out_degree_mat a v + out_degree_mat b v"
    by (simp add: out_degree_mat_def assms(1,2) sum_list_map_add)
  have "in_degree_mat (add_matrix a b) v
      = sum_list (map (\<lambda>i. a ! i ! v + b ! i ! v) [0..<n])"
    unfolding in_degree_mat_def sh(1)
    using assms(5) by (intro arg_cong [where f = sum_list] map_cong) (simp_all add: sh(3))
  then show "in_degree_mat (add_matrix a b) v = in_degree_mat a v + in_degree_mat b v"
    by (simp add: in_degree_mat_def assms(1,2) sum_list_map_add)
qed

lemma add_permutation_matrices_two_regular:
  assumes a: "permutation_matrix n a" "zero_diagonal a"
    and b: "permutation_matrix n b" "zero_diagonal b"
  shows "two_regular n (add_matrix a b)"
proof -
  have la: "length a = n" and lb: "length b = n"
    using a(1) b(1) by (simp_all add: permutation_matrix_def)
  have ra: "\<forall>row\<in>set a. length row = n" and rb: "\<forall>row\<in>set b. length row = n"
    using a(1) b(1) by (simp_all add: permutation_matrix_def list_all_iff)
  note sh = add_matrix_shape [OF la lb ra rb]
  have entries: "\<forall>x\<in>set row. x = 0 \<or> x = 1 \<or> x = 2" if row: "row \<in> set (add_matrix a b)" for row
  proof
    fix x assume x: "x \<in> set row"
    from row obtain i where i: "i < n" "row = add_matrix a b ! i"
      using sh(1) by (metis in_set_conv_nth)
    have "length row = n" using sh(2) row by blast
    with x obtain j where j: "j < n" "x = row ! j" by (metis in_set_conv_nth)
    have "x = a ! i ! j + b ! i ! j" using i j sh(3) by simp
    with permutation_matrix_entries [OF a(1) i(1) j(1)]
      permutation_matrix_entries [OF b(1) i(1) j(1)]
    show "x = 0 \<or> x = 1 \<or> x = 2" by auto
  qed
  have deg: "in_degree_mat (add_matrix a b) v = 2 \<and> out_degree_mat (add_matrix a b) v = 2
      \<and> total_degree (add_matrix a b) v = 4 \<and> add_matrix a b ! v ! v = 0" if v: "v < n" for v
  proof -
    have da: "out_degree_mat a v = 1" "in_degree_mat a v = 1"
      using a(1) v by (simp_all add: permutation_matrix_def list_all_iff)
    have db: "out_degree_mat b v = 1" "in_degree_mat b v = 1"
      using b(1) v by (simp_all add: permutation_matrix_def list_all_iff)
    have diag: "a ! v ! v = 0" "b ! v ! v = 0"
      using a(2) b(2) v la lb by (simp_all add: zero_diagonal_def list_all_iff)
    show ?thesis
      using degree_add_matrix [OF la lb ra rb v] da db diag sh(3) [OF v v]
      by (simp add: total_degree_def)
  qed
  show ?thesis
    unfolding two_regular_def using sh(1,2) entries deg by (simp add: list_all_iff)
qed

lemma diagram_generation_value:
  "diagram_generation n =
     Inr (sort_reverse (append_if_new []
       (map (\<lambda>coef. add_matrix
               (filter (\<lambda>m. \<forall>i\<in>{0..<length m}. m ! i ! i \<noteq> 1) (map (one_hot_rows n) (seed n)) ! fst coef)
               (filter (\<lambda>m. \<forall>i\<in>{0..<length m}. m ! i ! i \<noteq> 1) (map (one_hot_rows n) (seed n)) ! snd coef))
            (combinations_with_replacement2
               (length (filter (\<lambda>m. \<forall>i\<in>{0..<length m}. m ! i ! i \<noteq> 1)
                  (map (one_hot_rows n) (seed n))))))))"
proof -
  have sq: "\<forall>m\<in>set (map (one_hot_rows n) (seed n)). square m"
    using one_hot_rows_permutation_matrix permutation_matrix_square by auto
  show ?thesis
    unfolding diagram_generation_def Let_def g_square [OF sq] by simp
qed

text \<open>
  C10. For every order \<open>n\<close> the MBPT enumerator returns, and every matrix it returns is the
  elementwise sum of two permutation matrices with zero diagonal; so every vertex has
  in-degree 2 and out-degree 2 (total degree 4), every entry is 0, 1 or 2, and the
  diagonal is zero.
\<close>

theorem diagram_generation_two_permutations:
  "\<exists>ds. diagram_generation n = Inr ds \<and>
     (\<forall>m\<in>set ds.
        (\<exists>a b. permutation_matrix n a \<and> zero_diagonal a \<and>
               permutation_matrix n b \<and> zero_diagonal b \<and> m = add_matrix a b)
        \<and> two_regular n m)"
proof -
  let ?traceless = "filter (\<lambda>m. \<forall>i\<in>{0..<length m}. m ! i ! i \<noteq> 1) (map (one_hot_rows n) (seed n))"
  let ?double = "map (\<lambda>coef. add_matrix (?traceless ! fst coef) (?traceless ! snd coef))
      (combinations_with_replacement2 (length ?traceless))"
  have good: "permutation_matrix n t \<and> zero_diagonal t" if "t \<in> set ?traceless" for t
  proof -
    from that obtain k where k: "k \<in> set (seed n)" "t = one_hot_rows n k"
      and diag: "\<forall>i\<in>{0..<length t}. t ! i ! i \<noteq> 1"
      by auto
    have "permutation_matrix n t" using one_hot_rows_permutation_matrix [OF k(1)] k(2) by simp
    with traceless_zero_diagonal [OF this diag] show ?thesis by simp
  qed
  have "\<exists>a b. permutation_matrix n a \<and> zero_diagonal a \<and>
          permutation_matrix n b \<and> zero_diagonal b \<and> m = add_matrix a b"
    if "m \<in> set ?double" for m
  proof -
    from that obtain c0 c1 where c: "(c0, c1) \<in> set (combinations_with_replacement2 (length ?traceless))"
      and m: "m = add_matrix (?traceless ! c0) (?traceless ! c1)"
      by auto
    from combinations_with_replacement2_bound [OF c]
    have "?traceless ! c0 \<in> set ?traceless" "?traceless ! c1 \<in> set ?traceless"
      by (simp_all only: nth_mem)
    with good m show ?thesis by blast
  qed
  then have "(\<exists>a b. permutation_matrix n a \<and> zero_diagonal a \<and>
          permutation_matrix n b \<and> zero_diagonal b \<and> m = add_matrix a b) \<and> two_regular n m"
    if "m \<in> set (sort_reverse (append_if_new [] ?double))" for m
    using that add_permutation_matrices_two_regular
    unfolding sort_reverse_set append_if_new_set by fastforce
  then show ?thesis
    unfolding diagram_generation_value by blast
qed

lemma diagram_generation_3:
  "diagram_generation 3 =
     Inr [[[0, 2, 0], [0, 0, 2], [2, 0, 0]], [[0, 1, 1], [1, 0, 1], [1, 1, 0]],
          [[0, 0, 2], [2, 0, 0], [0, 2, 0]]]"
  by code_simp

theorem diagram_generation_two_permutations_witness:
  "two_regular 3 [[0, 1, 1], [1, 0, 1], [1, 1, 0]]
   \<and> (\<exists>a b. permutation_matrix 3 a \<and> zero_diagonal a \<and> permutation_matrix 3 b \<and> zero_diagonal b
         \<and> [[0, 1, 1], [1, 0, 1], [1, 1, 0]] = add_matrix a b)"
proof -
  from diagram_generation_two_permutations [of 3] obtain ds where
    ds: "diagram_generation 3 = Inr ds"
    and all: "\<forall>m\<in>set ds.
        (\<exists>a b. permutation_matrix 3 a \<and> zero_diagonal a \<and>
               permutation_matrix 3 b \<and> zero_diagonal b \<and> m = add_matrix a b)
        \<and> two_regular 3 m"
    by blast
  from ds have "[[0, 1, 1], [1, 0, 1], [1, 1, 0]] \<in> set ds"
    unfolding diagram_generation_3 by auto
  with all show ?thesis by blast
qed


section \<open>The scenarios of the script\<close>

lemma adg_mbpt_2:
  "adg ''MBPT'' 2 False False =
     Inr \<lparr>G = [\<lparr>node_operator = [None, None],
                 edges = [(0, 1, None), (0, 1, None), (1, 0, None), (1, 0, None)]\<rparr>],
          numdiag = 1, buckets = None\<rparr>"
  by code_simp

text \<open>
  C4 (as amended). Order 2 with MBPT gives exactly one diagram: its matrix has two non-zero
  entries, each of multiplicity 2, so the diagram has 4 edges (two from vertex 0 to vertex 1,
  two back) and both vertices have total degree 4.
\<close>

theorem adg_mbpt_order_2:
  "map_sum id (\<lambda>r. (numdiag r, map (\<lambda>d. (number_of_nodes d, number_of_edges d,
                        edge_count d 0 1, edge_count d 1 0, degree d 0, degree d 1)) (G r)))
     (adg ''MBPT'' 2 False False)
   = Inr (1, [(2, 4, 2, 2, 4, 4)])"
  unfolding adg_mbpt_2 by code_simp

text \<open>
  The claim as stated (2 edges, both vertices of degree 2) fails on the one diagram of
  order 2.
\<close>

theorem adg_mbpt_order_2_counterexample:
  "map_sum id (\<lambda>r. map (\<lambda>d. (number_of_edges d, degree d 0, degree d 1)) (G r))
     (adg ''MBPT'' 2 False False)
   \<noteq> Inr [(2, 2, 2)]"
  unfolding adg_mbpt_2 by code_simp

lemma adg_mbpt_3:
  "adg ''MBPT'' 3 False False =
     Inr \<lparr>G = [\<lparr>node_operator = [None, None, None],
                 edges = [(0, 1, None), (0, 1, None), (1, 2, None), (1, 2, None),
                          (2, 0, None), (2, 0, None)]\<rparr>,
               \<lparr>node_operator = [None, None, None],
                 edges = [(0, 1, None), (0, 2, None), (1, 0, None), (1, 2, None),
                          (2, 0, None), (2, 1, None)]\<rparr>,
               \<lparr>node_operator = [None, None, None],
                 edges = [(0, 2, None), (0, 2, None), (1, 0, None), (1, 0, None),
                          (2, 1, None), (2, 1, None)]\<rparr>],
          numdiag = 3, buckets = None\<rparr>"
  by code_simp

text \<open>
  C5 (as amended). Order 3 with MBPT gives exactly 3 diagrams, each weakly connected and
  no two of them equal; the first and the third are isomorphic as directed multigraphs
  (the MBPT branch of the script runs no isomorphism reduction), the second is isomorphic
  to neither.
\<close>

theorem adg_mbpt_order_3:
  "map_sum id (\<lambda>r. (numdiag r, length (G r), distinct (G r),
                    map number_weakly_connected_components (G r),
                    is_isomorphic False False (G r ! 0) (G r ! 1),
                    is_isomorphic False False (G r ! 1) (G r ! 2),
                    is_isomorphic False False (G r ! 0) (G r ! 2)))
     (adg ''MBPT'' 3 False False)
   = Inr (3, 3, True, [1, 1, 1], False, False, True)"
  unfolding adg_mbpt_3 by code_simp

text \<open>
  The claim as stated fails: two of the three diagrams are isomorphic as directed
  multigraphs (the two orientations of the doubled 3-cycle; exchanging the vertices 1 and 2
  maps one to the other).
\<close>

theorem adg_mbpt_order_3_counterexample:
  "map_sum id (\<lambda>r. is_isomorphic False False (G r ! 0) (G r ! 2)) (adg ''MBPT'' 3 False False)
   = Inr True"
  unfolding adg_mbpt_3 by code_simp

lemma adg_bmbpt_2:
  "adg ''BMBPT'' 2 False False =
     Inr \<lparr>G = [\<lparr>node_operator = [Some True, Some False],
                 edges = [(1, 0, None), (1, 0, None), (1, 0, None), (1, 0, None)]\<rparr>,
               \<lparr>node_operator = [Some True, Some False],
                 edges = [(1, 0, None), (1, 0, None)]\<rparr>],
          numdiag = 2,
          buckets = Some
            \<lparr>G2_HF = [\<lparr>node_operator = [Some True, Some False],
                         edges = [(1, 0, None), (1, 0, None), (1, 0, None), (1, 0, None)]\<rparr>],
             G2_EHF = [],
             G2_noHF = [\<lparr>node_operator = [Some True, Some False],
                          edges = [(1, 0, None), (1, 0, None)]\<rparr>],
             G3_HF = [], G3_EHF = [], G3_noHF = []\<rparr>\<rparr>"
  by code_simp

text \<open>
  C6. Order 2 with BMBPT, no three-body vertices, operator kernels: exactly 2 diagrams,
  different and not isomorphic under the operator matching; one is canonical for the energy
  (\<open>G2_HF\<close>), one is non-canonical (\<open>G2_noHF\<close>), none is canonical for a generic operator
  only, and there is no three-body diagram.
\<close>

theorem adg_bmbpt_order_2:
  "map_sum id (\<lambda>r. (numdiag r, length (G r), distinct (G r),
                    is_isomorphic True False (G r ! 0) (G r ! 1),
                    map_option (\<lambda>c. (length (G2_HF c), length (G2_EHF c), length (G2_noHF c),
                                      length (G3_HF c), length (G3_EHF c), length (G3_noHF c)))
                      (buckets r)))
     (adg ''BMBPT'' 2 False False)
   = Inr (2, 2, True, False, Some (1, 0, 1, 0, 0, 0))"
  unfolding adg_bmbpt_2 by code_simp


section \<open>Properties of the vertex labelling\<close>

text \<open>
  Whatever the theory, \<open>label_graph\<close> of adg/diag.py sets the operator flag of vertex 0
  and clears the flag of every other vertex.
\<close>

lemma label_graph_any_theory:
  assumes "0 < number_of_nodes gr"
  shows "label_graph gr theory_type =
    Inr (gr\<lparr>node_operator := (map (\<lambda>_. Some False) (node_operator gr))[0 := Some True]\<rparr>)"
  using assms by (simp add: label_graph_def truthy_def number_of_nodes_def Let_def)

text \<open>
  The version of methods.py sets the flag of vertex 0 exactly for BMBPT with the norm
  kernel off; in every other case all flags end \<open>False\<close>.
\<close>

lemma label_graph_methods_cases:
  assumes "0 < number_of_nodes gr"
  shows "label_graph_methods gr theory_type study_norm =
    Inr (gr\<lparr>node_operator :=
          (if theory_type = ''BMBPT'' \<and> \<not> study_norm
           then (map (\<lambda>_. Some False) (node_operator gr))[0 := Some True]
           else map (\<lambda>_. Some False) (node_operator gr))\<rparr>)"
  using assms by (auto simp: label_graph_methods_def number_of_nodes_def Let_def)

text \<open>
  C7 fails on the code of adg/diag.py: on the MBPT diagram of order 2 the labelling of
  adg/diag.py sets the operator flag of vertex 0, where the claim (and the labelling of
  methods.py, second conjunct) leaves every flag \<open>False\<close>.
\<close>

theorem label_vertices_mbpt_sets_operator:
  "label_vertices
     [\<lparr>node_operator = [None, None],
       edges = [(0, 1, None), (0, 1, None), (1, 0, None), (1, 0, None)]\<rparr>] ''MBPT''
   = Inr [\<lparr>node_operator = [Some True, Some False],
           edges = [(0, 1, None), (0, 1, None), (1, 0, None), (1, 0, None)]\<rparr>]
   \<and> label_vertices_methods
     [\<lparr>node_operator = [None, None],
       edges = [(0, 1, None), (0, 1, None), (1, 0, None), (1, 0, None)]\<rparr>] ''MBPT'' False
   = Inr [\<lparr>node_operator = [Some False, Some False],
           edges = [(0, 1, None), (0, 1, None), (1, 0, None), (1, 0, None)]\<rparr>]"
  by code_simp


section \<open>Properties of the dump\<close>

lemma digit_cases:
  assumes "d < (10::nat)"
  obtains "d = 0" | "d = 1" | "d = 2" | "d = 3" | "d = 4"
    | "d = 5" | "d = 6" | "d = 7" | "d = 8" | "d = 9"
proof -
  have "d = 0 \<or> d = 1 \<or> d = 2 \<or> d = 3 \<or> d = 4 \<or> d = 5 \<or> d = 6 \<or> d = 7 \<or> d = 8 \<or> d = 9"
    using assms by arith
  then show thesis using that by blast
qed

lemma digit_value_digit_char:
  assumes "d < 10"
  shows "digit_value (digit_char d) = Some d"
  using assms by (rule digit_cases) (simp_all add: digit_char_def digit_value_def)

lemma digit_char_plain:
  assumes "d < 10"
  shows "digit_char d \<noteq> CHR '' ''" "digit_char d \<noteq> CHR 0x0A" "digit_char d \<noteq> CHR ''-''"
  using assms by (rule digit_cases; simp add: digit_char_def)+

lemma str_nat_chars:
  "str_nat k \<noteq> [] \<and> CHR '' '' \<notin> set (str_nat k) \<and> CHR 0x0A \<notin> set (str_nat k)
   \<and> hd (str_nat k) \<noteq> CHR ''-''"
proof (induction k rule: str_nat.induct)
  case (1 k)
  show ?case
  proof (cases "k < 10")
    case True
    then show ?thesis
      using digit_char_plain [OF True] by (simp add: str_nat.simps [of k])
  next
    case False
    have m: "k mod 10 < 10" by simp
    show ?thesis
      using "1.IH" [OF False] False digit_char_plain [OF m]
      by (simp add: str_nat.simps [of k])
  qed
qed

lemma parse_digits_append:
  "parse_digits acc (xs @ ys) =
     (case parse_digits acc xs of None \<Rightarrow> None | Some a \<Rightarrow> parse_digits a ys)"
  by (induction xs arbitrary: acc) (simp_all split: option.splits)

lemma parse_digits_str_nat: "parse_digits 0 (str_nat k) = Some k"
proof (induction k rule: str_nat.induct)
  case (1 k)
  show ?case
  proof (cases "k < 10")
    case True
    then show ?thesis
      using digit_value_digit_char [OF True] by (simp add: str_nat.simps [of k])
  next
    case False
    have m: "k mod 10 < 10" by simp
    have "parse_digits 0 (str_nat k) = parse_digits (k div 10) [digit_char (k mod 10)]"
      using "1.IH" [OF False] False
      by (simp add: str_nat.simps [of k] parse_digits_append)
    also have "\<dots> = Some (10 * (k div 10) + k mod 10)"
      using digit_value_digit_char [OF m] by simp
    finally show ?thesis by simp
  qed
qed

lemma parse_nat_str_nat: "parse_nat (str_nat k) = Some k"
  using str_nat_chars [of k] by (simp add: parse_nat_def parse_digits_str_nat)

lemma parse_int_str_int: "parse_int (str_int k) = Some k"
proof (cases "k < 0")
  case True
  then show ?thesis
    by (simp add: str_int_def parse_int_def parse_nat_str_nat)
next
  case False
  obtain c cs where s: "str_nat (nat k) = c # cs"
    using str_nat_chars [of "nat k"] by (cases "str_nat (nat k)") auto
  have "c \<noteq> CHR ''-''" using str_nat_chars [of "nat k"] s by simp
  then have "parse_int (str_nat (nat k)) = map_option int (parse_nat (str_nat (nat k)))"
    by (simp add: parse_int_def s)
  then show ?thesis
    using False by (simp add: str_int_def parse_nat_str_nat)
qed

lemma str_int_plain: "plain_token (str_int k)"
  using str_nat_chars [of "nat k"] str_nat_chars [of "nat (- k)"]
  by (simp add: plain_token_def str_int_def)

lemma split_words_append:
  "CHR '' '' \<notin> set t \<Longrightarrow> split_words cur (t @ s) = split_words (cur @ t) s"
  by (induction t arbitrary: cur) auto

lemma split_words_join:
  "\<forall>t\<in>set ts. plain_token t \<Longrightarrow> split_words [] (join_space ts) = ts"
proof (induction ts rule: join_space.induct)
  case 1
  show ?case by simp
next
  case (2 t)
  then have t: "t \<noteq> []" "CHR '' '' \<notin> set t" by (simp_all add: plain_token_def)
  have "split_words [] (t @ []) = split_words ([] @ t) []"
    using t(2) by (rule split_words_append)
  then show ?case using t(1) by simp
next
  case (3 t u ts)
  then have t: "t \<noteq> []" "CHR '' '' \<notin> set t" and rest: "\<forall>x\<in>set (u # ts). plain_token x"
    by (simp_all add: plain_token_def)
  have "split_words [] (t @ CHR '' '' # join_space (u # ts))
      = split_words ([] @ t) (CHR '' '' # join_space (u # ts))"
    using t(2) by (rule split_words_append)
  then show ?case using t(1) "3.IH" [OF rest] by simp
qed

lemma join_space_plain:
  "\<forall>t\<in>set ts. plain_token t \<Longrightarrow> CHR 0x0A \<notin> set (join_space ts)"
  by (induction ts rule: join_space.induct) (auto simp: plain_token_def)

lemma join_space_not_empty:
  "ts \<noteq> [] \<Longrightarrow> \<forall>t\<in>set ts. plain_token t \<Longrightarrow> join_space ts \<noteq> []"
  by (induction ts rule: join_space.induct) (auto simp: plain_token_def)

lemma parse_all_map:
  "\<forall>x\<in>set xs. f (h x) = Some x \<Longrightarrow> parse_all f (map h xs) = Some xs"
  by (induction xs) simp_all

lemma parse_row_join: "parse_row (join_space (map str_int row)) = Some row"
proof -
  have "split_words [] (join_space (map str_int row)) = map str_int row"
    by (rule split_words_join) (simp add: str_int_plain)
  then show ?thesis
    by (simp add: parse_row_def parse_all_map parse_int_str_int)
qed

lemma split_lines_append:
  "CHR 0x0A \<notin> set l \<Longrightarrow> split_lines cur (l @ s) = split_lines (cur @ l) s"
  by (induction l arbitrary: cur) auto

lemma split_lines_line:
  assumes "CHR 0x0A \<notin> set l"
  shows "split_lines [] (l @ CHR 0x0A # s) = l # split_lines [] s"
proof -
  have "split_lines [] (l @ CHR 0x0A # s) = split_lines ([] @ l) (CHR 0x0A # s)"
    using assms by (rule split_lines_append)
  then show ?thesis by simp
qed

lemma split_lines_savetxt:
  "split_lines [] (savetxt m @ s) = map (\<lambda>row. join_space (map str_int row)) m @ split_lines [] s"
proof (induction m)
  case Nil
  show ?case by (simp add: savetxt_def)
next
  case (Cons row m)
  have nl: "CHR 0x0A \<notin> set (join_space (map str_int row))"
    by (rule join_space_plain) (simp add: str_int_plain)
  have "savetxt (row # m) @ s = join_space (map str_int row) @ CHR 0x0A # (savetxt m @ s)"
    by (simp add: savetxt_def savetxt_row_def)
  then show ?case
    using split_lines_line [OF nl, of "savetxt m @ s"] Cons.IH by simp
qed

lemma header_no_newline: "CHR 0x0A \<notin> set (header_text idx)"
  using str_int_plain [of "int idx + 1"] by (simp add: plain_token_def header_text_def)

lemma parse_header_header: "parse_header (header_text idx) = Some (idx + 1)"
proof -
  have "str_int (int idx + 1) = str_nat (idx + 1)"
    by (simp add: str_int_def nat_add_distrib)
  then show ?thesis
    by (simp add: parse_header_def parse_nat_str_nat header_text_def)
qed

lemma split_lines_block:
  "split_lines [] (block_text idx m @ s) =
     header_text idx # map (\<lambda>row. join_space (map str_int row)) m @ [] # split_lines [] s"
proof -
  have "block_text idx m @ s = header_text idx @ CHR 0x0A # (savetxt m @ (CHR 0x0A # s))"
    by (simp add: block_text_def)
  then have "split_lines [] (block_text idx m @ s) =
      header_text idx # split_lines [] (savetxt m @ (CHR 0x0A # s))"
    using split_lines_line [OF header_no_newline] by simp
  then show ?thesis
    by (simp add: split_lines_savetxt)
qed

lemma parse_lines_rows:
  assumes "\<forall>row\<in>set m. row \<noteq> []"
  shows "parse_lines blocks (Some (i, acc)) (map (\<lambda>row. join_space (map str_int row)) m @ [] # rest)
    = parse_lines (blocks @ [(i, acc @ m)]) None rest"
  using assms
proof (induction m arbitrary: acc)
  case Nil
  show ?case by simp
next
  case (Cons row m)
  then have row: "row \<noteq> []" and tl: "\<forall>r\<in>set m. r \<noteq> []" by simp_all
  have ne: "join_space (map str_int row) \<noteq> []"
    using row by (intro join_space_not_empty) (simp_all add: str_int_plain)
  show ?case
    using Cons.IH [OF tl, of "acc @ [row]"] ne by (simp add: parse_row_join)
qed

lemma adjacency_rows:
  "0 < number_of_nodes (graph d) \<Longrightarrow> \<forall>row\<in>set (adjacency d). row \<noteq> []"
  by (auto simp: adjacency_def to_numpy_matrix_def)

lemma print_adj_matrices_from_parse:
  assumes "\<forall>d\<in>set ds. 0 < number_of_nodes (graph d)"
  shows "print_adj_matrices_from idx ds =
      concat (map (\<lambda>(i, d). block_text i (adjacency d)) (enumerate idx ds))
    \<and> parse_lines blocks None
        (split_lines [] (concat (map (\<lambda>(i, d). block_text i (adjacency d)) (enumerate idx ds))))
      = Some (blocks @ map (\<lambda>(i, d). (i + 1, adjacency d)) (enumerate idx ds))"
  using assms
proof (induction ds arbitrary: idx blocks)
  case Nil
  show ?case by simp
next
  case (Cons d ds)
  then have d: "0 < number_of_nodes (graph d)"
    and rest: "\<forall>x\<in>set ds. 0 < number_of_nodes (graph x)" by simp_all
  have m: "to_numpy_matrix (graph d) = adjacency d"
    by (simp add: adjacency_def)
  note ih = Cons.IH [OF rest, of "Suc idx" "blocks @ [(idx + 1, adjacency d)]"]
  have out: "print_adj_matrices_from idx (d # ds) =
      concat (map (\<lambda>(i, d). block_text i (adjacency d)) (enumerate idx (d # ds)))"
    using m ih by simp
  have "parse_lines blocks None
      (split_lines [] (concat (map (\<lambda>(i, d). block_text i (adjacency d)) (enumerate idx (d # ds)))))
    = parse_lines blocks (Some (idx + 1, []))
        (map (\<lambda>row. join_space (map str_int row)) (adjacency d) @ [] #
         split_lines [] (concat (map (\<lambda>(i, d). block_text i (adjacency d)) (enumerate (Suc idx) ds))))"
    by (simp add: split_lines_block parse_header_header)
  also have "\<dots> = parse_lines (blocks @ [(idx + 1, adjacency d)]) None
        (split_lines [] (concat (map (\<lambda>(i, d). block_text i (adjacency d)) (enumerate (Suc idx) ds))))"
    using parse_lines_rows [OF adjacency_rows [OF d], of blocks "idx + 1" "[]"] by simp
  also have "\<dots> = Some (blocks @ map (\<lambda>(i, d). (i + 1, adjacency d)) (enumerate idx (d # ds)))"
    using ih by simp
  finally show ?case using out by simp
qed

text \<open>
  The writer of adg/diag.py. For diagrams whose graphs have nodes, \<open>print_adj_matrices\<close>
  writes a text that is one block per diagram, in order; the block of the diagram at
  position \<open>i\<close> (from 0) is the header line \<open>Diagram n: i+1\<close>, then one line per row of
  the adjacency matrix with the entries in decimal separated by a space, then an empty
  line. Reading the text back gives, for every diagram, its index and a matrix identical
  to its adjacency matrix.
\<close>

lemma print_adj_matrices_round_trip:
  assumes "\<forall>d\<in>set ds. 0 < number_of_nodes (graph d)"
  shows "print_adj_matrices ds = concat (map (\<lambda>(i, d).
          ''Diagram n: '' @ str_int (int i + 1) @ [CHR 0x0A]
          @ concat (map (\<lambda>row. join_space (map str_int row) @ [CHR 0x0A]) (adjacency d))
          @ [CHR 0x0A]) (enumerate 0 ds))
    \<and> parse_dump (print_adj_matrices ds)
        = Some (map (\<lambda>(i, d). (i + 1, adjacency d)) (enumerate 0 ds))"
proof -
  have fmt: "(\<lambda>(i, d). block_text i (adjacency d)) =
      (\<lambda>(i, d). ''Diagram n: '' @ str_int (int i + 1) @ [CHR 0x0A]
          @ concat (map (\<lambda>row. join_space (map str_int row) @ [CHR 0x0A]) (adjacency d))
          @ [CHR 0x0A])"
    by (simp add: block_text_def header_text_def savetxt_def savetxt_row_def [abs_def])
  show ?thesis
    using print_adj_matrices_from_parse [OF assms, of 0 "[]"]
    unfolding print_adj_matrices_def parse_dump_def fmt by simp
qed

lemma print_adj_matrices_example:
  "print_adj_matrices
     [\<lparr>cls = Diagram,
       graph = \<lparr>node_operator = [Some True, Some False],
                edges = [(1, 0, None), (1, 0, None), (1, 0, None), (1, 0, None)]\<rparr>,
       unsort_degrees = [4, 4], degrees = [4, 4], unsort_io_degrees = [(4, 0), (0, 4)],
       io_degrees = [(0, 4), (4, 0)], max_degree = 4, tags = [0]\<rparr>]
   = ''Diagram n: 1\<newline>0 0\<newline>4 0\<newline>\<newline>''"
  by code_simp

lemma print_adj_matrices_round_trip_example:
  "parse_dump ''Diagram n: 1\<newline>0 0\<newline>4 0\<newline>\<newline>'' = Some [(1, [[0, 0], [4, 0]])]"
proof -
  let ?d = "\<lparr>cls = Diagram,
       graph = \<lparr>node_operator = [Some True, Some False],
                edges = [(1, 0, None), (1, 0, None), (1, 0, None), (1, 0, None)]\<rparr>,
       unsort_degrees = [4, 4], degrees = [4, 4], unsort_io_degrees = [(4, 0), (0, 4)],
       io_degrees = [(0, 4), (4, 0)], max_degree = 4, tags = [0]\<rparr>"
  have pre: "\<forall>d\<in>set [?d]. 0 < number_of_nodes (graph d)"
    by (simp add: number_of_nodes_def)
  have adj: "adjacency ?d = [[0, 0], [4, 0]]" by code_simp
  from print_adj_matrices_round_trip [OF pre]
  have "parse_dump (print_adj_matrices [?d])
      = Some (map (\<lambda>(i, d). (i + 1, adjacency d)) (enumerate 0 [?d]))"
    by blast
  then show ?thesis
    unfolding print_adj_matrices_example using adj by simp
qed


section \<open>The canonicalizer as a recursion on lists\<close>

lemma delete_at_append_Cons:
  "delete_at (length pre + 1 + j) (pre @ x # later) = pre @ x # delete_at j later"
  by (simp add: delete_at_def)



text \<open>The test ends without an error on the lists the canonicalizer is made for.\<close>

lemma props_to_add_returns:
  "list_all (\<lambda>prop. snd (snd prop) \<noteq> None) es \<Longrightarrow> \<exists>props. props_to_add es = Inr props"
  by (induction es) auto

lemma create_checkable_diagram_returns:
  assumes "has_anomalous_attribute gr"
  shows "\<exists>doubled. create_checkable_diagram gr = Inr doubled"
proof -
  from assms obtain props where "props_to_add (edges gr) = Inr props"
    unfolding has_anomalous_attribute_def using props_to_add_returns by blast
  then show ?thesis by (simp add: create_checkable_diagram_def)
qed

lemma checkable_same_topology:
  assumes "checkable ds" "d \<in> set ds" "c \<in> set ds"
  shows "\<exists>b. same_topology d c = Inr b"
proof (cases "cls d = ProjectedBmbptDiagram")
  case True
  with assms have "has_anomalous_attribute (graph d)" "has_anomalous_attribute (graph c)"
    unfolding checkable_def by auto
  then obtain dg cg where "create_checkable_diagram (graph d) = Inr dg"
    "create_checkable_diagram (graph c) = Inr cg"
    using create_checkable_diagram_returns by blast
  then show ?thesis by (auto simp: same_topology_def)
next
  case False
  then show ?thesis by (auto simp: same_topology_def)
qed

lemma checkable_retagged:
  assumes "checkable xs" "\<forall>x\<in>set ys. \<exists>y\<in>set xs. \<exists>t. x = y\<lparr>tags := t\<rparr>"
  shows "checkable ys"
proof -
  have "cls x = Diagram" if "\<forall>d\<in>set xs. cls d = Diagram" "x \<in> set ys" for x
  proof -
    from assms(2) that(2) obtain y t where "y \<in> set xs" "x = y\<lparr>tags := t\<rparr>" by blast
    with that(1) show ?thesis by simp
  qed
  moreover have "has_anomalous_attribute (graph x)"
    if "\<forall>d\<in>set xs. has_anomalous_attribute (graph d)" "x \<in> set ys" for x
  proof -
    from assms(2) that(2) obtain y t where "y \<in> set xs" "x = y\<lparr>tags := t\<rparr>" by blast
    with that(1) show ?thesis by simp
  qed
  ultimately show ?thesis using assms(1) unfolding checkable_def by blast
qed

lemma absorb_fst_retag: "\<exists>t. fst (absorb d cs) = d\<lparr>tags := t\<rparr>"
proof (induction cs)
  case Nil
  have "fst (absorb d []) = d\<lparr>tags := tags d\<rparr>" by simp
  then show ?case by (rule exI)
next
  case (Cons c cs)
  then obtain t where t: "fst (absorb d cs) = d\<lparr>tags := t\<rparr>" by blast
  show ?case
  proof (cases "matched d c")
    case True
    then have "fst (absorb d (c # cs)) = d\<lparr>tags := tags d @ tags c\<rparr>" by simp
    then show ?thesis by (rule exI)
  next
    case False
    then have "fst (absorb d (c # cs)) = d\<lparr>tags := t\<rparr>" using t by simp
    then show ?thesis by (rule exI)
  qed
qed

lemma absorb_snd_subset: "set (snd (absorb d cs)) \<subseteq> set cs"
  by (induction cs) auto

lemma canon_step_elements:
  assumes "x \<in> set (canon_step d later)"
  shows "\<exists>y\<in>set (d # later). \<exists>t. x = y\<lparr>tags := t\<rparr>"
proof (cases "x = fst (absorb d (rev later))")
  case True
  then show ?thesis using absorb_fst_retag [of d "rev later"] by auto
next
  case False
  with assms have "x \<in> set (snd (absorb d (rev later)))" by (simp add: canon_step_def)
  then have "x \<in> set later" using absorb_snd_subset [of d "rev later"] by auto
  then have "x \<in> set (d # later)" by simp
  moreover have "x = x\<lparr>tags := tags x\<rparr>" by simp
  ultimately show ?thesis by (intro bexI exI)
qed


lemma compare_later_absorb:
  assumes "j \<le> length later" "\<forall>c\<in>set later. \<exists>b. same_topology d c = Inr b"
  shows "compare_later (pre @ d # later) (length pre) (length pre + 1 + j) =
    Inr (pre @ fst (absorb d (rev (take j later))) # rev (snd (absorb d (rev (take j later))))
         @ drop j later)"
  using assms(1)
proof (induction j)
  case 0
  show ?case by simp
next
  case (Suc j)
  then have j: "j < length later" by simp
  let ?ds = "pre @ d # later"
  have at_i: "?ds ! length pre = d" by simp
  have at_c: "?ds ! (length pre + 1 + j) = later ! j"
    by (simp add: nth_append)
  have tk: "rev (take (Suc j) later) = later ! j # rev (take j later)"
    using j by (simp add: take_Suc_conv_app_nth)
  from assms(2) j obtain b where b: "same_topology d (later ! j) = Inr b"
    using nth_mem [OF j] by blast
  have mb: "matched d (later ! j) = b" by (simp add: matched_def b)
  have gt: "\<not> length pre + 1 + j \<le> length pre" by simp
  have step: "compare_later ?ds (length pre) (Suc (length pre + 1 + j)) =
      (if matched d (later ! j) then
         Inr (delete_at (length pre + 1 + j)
               (?ds[length pre := d\<lparr>tags := tags d @ tags (later ! j)\<rparr>]))
       else compare_later ?ds (length pre) (length pre + 1 + j))"
    by (simp only: compare_later.simps at_i at_c b mb gt if_False sum.case)
  show ?case
  proof (cases "matched d (later ! j)")
    case True
    have "compare_later ?ds (length pre) (Suc (length pre + 1 + j)) =
        Inr (delete_at (length pre + 1 + j) (pre @ d\<lparr>tags := tags d @ tags (later ! j)\<rparr> # later))"
      using True by (simp only: step if_True) simp
    also have "\<dots> = Inr (pre @ d\<lparr>tags := tags d @ tags (later ! j)\<rparr> # delete_at j later)"
      by (simp only: delete_at_append_Cons)
    finally have lhs: "compare_later ?ds (length pre) (length pre + 1 + Suc j) =
        Inr (pre @ d\<lparr>tags := tags d @ tags (later ! j)\<rparr> # take j later @ drop (Suc j) later)"
      by (simp add: delete_at_def)
    show ?thesis
      unfolding lhs tk using True by simp
  next
    case False
    have "compare_later ?ds (length pre) (Suc (length pre + 1 + j)) =
        compare_later ?ds (length pre) (length pre + 1 + j)"
      using False by (simp only: step if_False)
    also have "\<dots> = Inr (pre @ fst (absorb d (rev (take j later)))
        # rev (snd (absorb d (rev (take j later)))) @ drop j later)"
      using Suc.IH j by simp
    finally have lhs: "compare_later ?ds (length pre) (length pre + 1 + Suc j) =
        Inr (pre @ fst (absorb d (rev (take j later)))
        # rev (snd (absorb d (rev (take j later)))) @ drop j later)"
      by simp
    show ?thesis
      unfolding lhs tk using False j by (simp add: Cons_nth_drop_Suc)
  qed
qed

lemma compare_later_canon_step:
  assumes "\<forall>c\<in>set later. \<exists>b. same_topology d c = Inr b"
  shows "compare_later (pre @ d # later) (length pre) (length (pre @ d # later)) =
     Inr (pre @ canon_step d later)"
  using compare_later_absorb [OF _ assms, of "length later" pre]
  by (simp add: canon_step_def)

lemma distinct_loop_foldr:
  assumes "checkable (pre @ later)"
  shows "distinct_loop (length pre) (pre @ later) = Inr (foldr canon_step pre later)"
  using assms
proof (induction pre arbitrary: later rule: rev_induct)
  case Nil
  show ?case by simp
next
  case (snoc d pre)
  have tests: "\<forall>c\<in>set later. \<exists>b. same_topology d c = Inr b"
    using checkable_same_topology [OF snoc.prems] by simp
  have "\<forall>x\<in>set (pre @ canon_step d later). \<exists>y\<in>set ((pre @ [d]) @ later). \<exists>t. x = y\<lparr>tags := t\<rparr>"
  proof
    fix x assume "x \<in> set (pre @ canon_step d later)"
    then consider "x \<in> set pre" | "x \<in> set (canon_step d later)" by auto
    then show "\<exists>y\<in>set ((pre @ [d]) @ later). \<exists>t. x = y\<lparr>tags := t\<rparr>"
    proof cases
      case 1
      then have "x \<in> set ((pre @ [d]) @ later)" by simp
      moreover have "x = x\<lparr>tags := tags x\<rparr>" by simp
      ultimately show ?thesis by (intro bexI exI)
    next
      case 2
      from canon_step_elements [OF this] show ?thesis by auto
    qed
  qed
  with snoc.prems have next_ok: "checkable (pre @ canon_step d later)"
    by (rule checkable_retagged)
  have "distinct_loop (length (pre @ [d])) ((pre @ [d]) @ later) =
      (case compare_later (pre @ d # later) (length pre) (length (pre @ d # later)) of
         Inl e \<Rightarrow> Inl e
       | Inr diagrams' \<Rightarrow> distinct_loop (length pre) diagrams')"
    by simp
  also have "\<dots> = distinct_loop (length pre) (pre @ canon_step d later)"
    by (simp only: compare_later_canon_step [OF tests] sum.case)
  also have "\<dots> = Inr (foldr canon_step pre (canon_step d later))"
    using next_ok by (rule snoc.IH)
  finally show ?case by simp
qed

lemma topologically_distinct_diagrams_foldr:
  "checkable ds \<Longrightarrow> topologically_distinct_diagrams ds = Inr (foldr canon_step ds [])"
  using distinct_loop_foldr [of ds "[]"] by (simp add: topologically_distinct_diagrams_def)

text \<open>
  A run that returns has met no error in the tests it made, and its result is the one of
  the recursion.
\<close>

lemma compare_later_returned:
  assumes "j \<le> length later"
    "compare_later (pre @ d # later) (length pre) (length pre + 1 + j) = Inr r"
  shows "r = pre @ fst (absorb d (rev (take j later))) # rev (snd (absorb d (rev (take j later))))
         @ drop j later"
  using assms
proof (induction j)
  case 0
  then show ?case by simp
next
  case (Suc j)
  then have j: "j < length later" by simp
  let ?ds = "pre @ d # later"
  have at_i: "?ds ! length pre = d" by simp
  have at_c: "?ds ! (length pre + 1 + j) = later ! j"
    by (simp add: nth_append)
  have tk: "rev (take (Suc j) later) = later ! j # rev (take j later)"
    using j by (simp add: take_Suc_conv_app_nth)
  have gt: "\<not> length pre + 1 + j \<le> length pre" by simp
  have unfold: "compare_later ?ds (length pre) (Suc (length pre + 1 + j)) =
      (case same_topology d (later ! j) of
         Inl e \<Rightarrow> Inl e
       | Inr is_isomorphic_now \<Rightarrow>
          if is_isomorphic_now then
            Inr (delete_at (length pre + 1 + j)
                  (?ds[length pre := d\<lparr>tags := tags d @ tags (later ! j)\<rparr>]))
          else compare_later ?ds (length pre) (length pre + 1 + j))"
    by (simp only: compare_later.simps at_i at_c gt if_False)
  from Suc.prems(2) have run: "compare_later ?ds (length pre) (Suc (length pre + 1 + j)) = Inr r"
    by simp
  from run unfold obtain b where b: "same_topology d (later ! j) = Inr b"
    by (cases "same_topology d (later ! j)") simp_all
  have mb: "matched d (later ! j) = b" by (simp add: matched_def b)
  show ?case
  proof (cases b)
    case True
    from run have "r = delete_at (length pre + 1 + j)
        (pre @ d\<lparr>tags := tags d @ tags (later ! j)\<rparr> # later)"
      unfolding unfold b using True by simp
    also have "\<dots> = pre @ d\<lparr>tags := tags d @ tags (later ! j)\<rparr> # delete_at j later"
      by (simp only: delete_at_append_Cons)
    finally have "r = pre @ d\<lparr>tags := tags d @ tags (later ! j)\<rparr>
        # take j later @ drop (Suc j) later"
      by (simp add: delete_at_def)
    then show ?thesis
      unfolding tk using True mb by simp
  next
    case False
    from run have "compare_later ?ds (length pre) (length pre + 1 + j) = Inr r"
      unfolding unfold b using False by simp
    with Suc.IH j have "r = pre @ fst (absorb d (rev (take j later)))
        # rev (snd (absorb d (rev (take j later)))) @ drop j later"
      by simp
    then show ?thesis
      unfolding tk using False mb j by (simp add: Cons_nth_drop_Suc)
  qed
qed

lemma distinct_loop_returned:
  "distinct_loop (length pre) (pre @ later) = Inr r \<Longrightarrow> r = foldr canon_step pre later"
proof (induction pre arbitrary: later rule: rev_induct)
  case Nil
  then show ?case by simp
next
  case (snoc d pre)
  have unfold: "distinct_loop (length (pre @ [d])) ((pre @ [d]) @ later) =
      (case compare_later (pre @ d # later) (length pre) (length (pre @ d # later)) of
         Inl e \<Rightarrow> Inl e
       | Inr diagrams' \<Rightarrow> distinct_loop (length pre) diagrams')"
    by simp
  from snoc.prems unfold obtain ds' where
    inner: "compare_later (pre @ d # later) (length pre) (length (pre @ d # later)) = Inr ds'"
    and rest: "distinct_loop (length pre) ds' = Inr r"
    by (cases "compare_later (pre @ d # later) (length pre) (length (pre @ d # later))") simp_all
  from inner have "compare_later (pre @ d # later) (length pre) (length pre + 1 + length later)
      = Inr ds'"
    by simp
  from compare_later_returned [OF _ this] have "ds' = pre @ canon_step d later"
    by (simp add: canon_step_def)
  with rest have "distinct_loop (length pre) (pre @ canon_step d later) = Inr r" by simp
  from snoc.IH [OF this] show ?case by simp
qed

lemma topologically_distinct_diagrams_returned:
  "topologically_distinct_diagrams ds = Inr out \<Longrightarrow> out = foldr canon_step ds []"
  using distinct_loop_returned [of ds "[]" out] by (simp add: topologically_distinct_diagrams_def)

text \<open>One step of the recursion: what happens to the first diagram of a list.\<close>

lemma absorb_none: "\<forall>c\<in>set cs. \<not> matched d c \<Longrightarrow> absorb d cs = (d, cs)"
  by (induction cs) simp_all

lemma absorb_first_match:
  assumes "\<forall>x\<in>set xs. \<not> matched d x" "matched d c"
  shows "absorb d (xs @ c # ys) = (d\<lparr>tags := tags d @ tags c\<rparr>, xs @ ys)"
  using assms(1) by (induction xs) (simp_all add: assms(2))

lemma canon_step_none: "\<forall>c\<in>set later. \<not> matched d c \<Longrightarrow> canon_step d later = d # later"
  using absorb_none [of "rev later" d] by (simp add: canon_step_def)

lemma canon_step_last_match:
  assumes "matched d c" "\<forall>x\<in>set post. \<not> matched d x"
  shows "canon_step d (pre @ c # post) = d\<lparr>tags := tags d @ tags c\<rparr> # pre @ post"
proof -
  have "absorb d (rev post @ c # rev pre) = (d\<lparr>tags := tags d @ tags c\<rparr>, rev post @ rev pre)"
    using assms by (intro absorb_first_match) simp_all
  then show ?thesis by (simp add: canon_step_def)
qed

section \<open>Tags are conserved\<close>

lemma absorb_tags:
  "mset (tags (fst (absorb d cs))) + mset (all_tags (snd (absorb d cs)))
     = mset (tags d) + mset (all_tags cs)"
  by (induction cs) (simp_all add: all_tags_def)

lemma all_tags_rev: "mset (all_tags (rev ds)) = mset (all_tags ds)"
  by (induction ds) (simp_all add: all_tags_def)

lemma canon_step_tags:
  "mset (all_tags (canon_step d later)) = mset (tags d) + mset (all_tags later)"
proof -
  have "mset (all_tags (canon_step d later)) =
      mset (tags (fst (absorb d (rev later)))) + mset (all_tags (rev (snd (absorb d (rev later)))))"
    by (simp add: canon_step_def all_tags_def)
  also have "\<dots> = mset (tags d) + mset (all_tags (rev later))"
    by (simp only: all_tags_rev absorb_tags)
  finally show ?thesis by (simp only: all_tags_rev)
qed

lemma foldr_canon_step_tags:
  "mset (all_tags (foldr canon_step ds later)) = mset (all_tags ds) + mset (all_tags later)"
proof (induction ds)
  case Nil
  show ?case by (simp add: all_tags_def)
next
  case (Cons d ds)
  have "mset (all_tags (foldr canon_step (d # ds) later)) =
      mset (tags d) + mset (all_tags (foldr canon_step ds later))"
    by (simp add: canon_step_tags)
  then show ?case using Cons.IH by (simp add: all_tags_def)
qed

lemma length_all_tags: "length (all_tags ds) = sum_list (map (\<lambda>d. length (tags d)) ds)"
  by (induction ds) (simp_all add: all_tags_def)

text \<open>
  C2. The canonicalizer returns on every list whose graphs can be tested (plain diagrams,
  or propagators that all carry the attribute \<open>anomalous\<close>; otherwise the test may raise
  \<open>KeyError\<close>). Whenever it returns, the tags of the output, all together, are the tags
  of the input as a multiset (none lost, none duplicated); so when every input diagram
  carries exactly one tag, the lengths of the tag lists of the output add up to the number
  of input diagrams. And it treats a diagram \<open>d\<close> put in front of a list after the list:
  with \<open>reps\<close> the representatives of the list, \<open>d\<close> is kept as it is when it matches none
  of them; otherwise the last representative \<open>c\<close> it matches is discarded and its tags are
  appended to the tags of \<open>d\<close>, and nothing else changes.
\<close>

theorem topologically_distinct_diagrams_tags:
  "(checkable ds \<longrightarrow> (\<exists>out. topologically_distinct_diagrams ds = Inr out))
   \<and> (\<forall>out. topologically_distinct_diagrams ds = Inr out \<longrightarrow>
         mset (all_tags out) = mset (all_tags ds)
         \<and> (list_all (\<lambda>x. length (tags x) = 1) ds \<longrightarrow>
              sum_list (map (\<lambda>x. length (tags x)) out) = length ds))
   \<and> (\<forall>d reps out.
         topologically_distinct_diagrams ds = Inr reps
         \<and> topologically_distinct_diagrams (d # ds) = Inr out \<longrightarrow>
           ((\<forall>c\<in>set reps. \<not> matched d c) \<longrightarrow> out = d # reps)
         \<and> (\<forall>pre c post.
               reps = pre @ c # post \<and> matched d c \<and> (\<forall>x\<in>set post. \<not> matched d x) \<longrightarrow>
               out = d\<lparr>tags := tags d @ tags c\<rparr> # pre @ post))"
proof -
  have returns: "\<exists>out. topologically_distinct_diagrams ds = Inr out" if "checkable ds"
    using topologically_distinct_diagrams_foldr [OF that] by blast
  have tags_kept: "mset (all_tags out) = mset (all_tags ds)
      \<and> (list_all (\<lambda>x. length (tags x) = 1) ds \<longrightarrow>
           sum_list (map (\<lambda>x. length (tags x)) out) = length ds)"
    if "topologically_distinct_diagrams ds = Inr out" for out
  proof -
    from that have out: "out = foldr canon_step ds []"
      by (rule topologically_distinct_diagrams_returned)
    have m: "mset (all_tags out) = mset (all_tags ds)"
      unfolding out using foldr_canon_step_tags [of ds "[]"] by (simp add: all_tags_def)
    have "sum_list (map (\<lambda>x. length (tags x)) out) = length ds"
      if one: "list_all (\<lambda>x. length (tags x) = 1) ds"
    proof -
      have "sum_list (map (\<lambda>x. length (tags x)) xs) = length xs"
        if "list_all (\<lambda>x. length (tags x) = 1) xs" for xs :: "diagram list"
        using that by (induction xs) simp_all
      from this [OF one] have "sum_list (map (\<lambda>x. length (tags x)) ds) = length ds" .
      moreover have "length (all_tags out) = length (all_tags ds)"
        using m by (rule mset_eq_length)
      ultimately show ?thesis by (simp only: length_all_tags)
    qed
    with m show ?thesis by blast
  qed
  have merge: "((\<forall>c\<in>set reps. \<not> matched d c) \<longrightarrow> out = d # reps)
      \<and> (\<forall>pre c post.
            reps = pre @ c # post \<and> matched d c \<and> (\<forall>x\<in>set post. \<not> matched d x) \<longrightarrow>
            out = d\<lparr>tags := tags d @ tags c\<rparr> # pre @ post)"
    if "topologically_distinct_diagrams ds = Inr reps
        \<and> topologically_distinct_diagrams (d # ds) = Inr out" for d reps out
  proof -
    from that have reps: "reps = foldr canon_step ds []"
      and "out = foldr canon_step (d # ds) []"
      using topologically_distinct_diagrams_returned by blast+
    then have out: "out = canon_step d reps" by simp
    have "out = d # reps" if "\<forall>c\<in>set reps. \<not> matched d c"
      unfolding out using that by (rule canon_step_none)
    moreover have "out = d\<lparr>tags := tags d @ tags c\<rparr> # pre @ post"
      if "reps = pre @ c # post \<and> matched d c \<and> (\<forall>x\<in>set post. \<not> matched d x)" for pre c post
      unfolding out using that canon_step_last_match [of d c post pre] by simp
    ultimately show ?thesis by blast
  qed
  from returns tags_kept merge show ?thesis by blast
qed

theorem topologically_distinct_diagrams_tags_witness:
  "\<exists>reps out.
     topologically_distinct_diagrams
       [\<lparr>cls = Diagram,
         graph = \<lparr>node_operator = [Some True, Some False], edges = [(1, 0, None), (1, 0, None)]\<rparr>,
         unsort_degrees = [2, 2], degrees = [2, 2], unsort_io_degrees = [(2, 0), (0, 2)],
         io_degrees = [(0, 2), (2, 0)], max_degree = 2, tags = [1]\<rparr>,
        \<lparr>cls = Diagram,
         graph = \<lparr>node_operator = [Some True, Some False],
                  edges = [(1, 0, None), (1, 0, None), (1, 0, None), (1, 0, None)]\<rparr>,
         unsort_degrees = [4, 4], degrees = [4, 4], unsort_io_degrees = [(4, 0), (0, 4)],
         io_degrees = [(0, 4), (4, 0)], max_degree = 4, tags = [2]\<rparr>] = Inr reps
   \<and> topologically_distinct_diagrams
       [\<lparr>cls = Diagram,
         graph = \<lparr>node_operator = [Some True, Some False], edges = [(1, 0, None), (1, 0, None)]\<rparr>,
         unsort_degrees = [2, 2], degrees = [2, 2], unsort_io_degrees = [(2, 0), (0, 2)],
         io_degrees = [(0, 2), (2, 0)], max_degree = 2, tags = [0]\<rparr>,
        \<lparr>cls = Diagram,
         graph = \<lparr>node_operator = [Some True, Some False], edges = [(1, 0, None), (1, 0, None)]\<rparr>,
         unsort_degrees = [2, 2], degrees = [2, 2], unsort_io_degrees = [(2, 0), (0, 2)],
         io_degrees = [(0, 2), (2, 0)], max_degree = 2, tags = [1]\<rparr>,
        \<lparr>cls = Diagram,
         graph = \<lparr>node_operator = [Some True, Some False],
                  edges = [(1, 0, None), (1, 0, None), (1, 0, None), (1, 0, None)]\<rparr>,
         unsort_degrees = [4, 4], degrees = [4, 4], unsort_io_degrees = [(4, 0), (0, 4)],
         io_degrees = [(0, 4), (4, 0)], max_degree = 4, tags = [2]\<rparr>] = Inr out
   \<and> map tags reps = [[1], [2]]
   \<and> map tags out = [[0, 1], [2]]
   \<and> mset (all_tags out) = {#0, 1, 2#}
   \<and> sum_list (map (\<lambda>x. length (tags x)) out) = 3"
  (is "\<exists>reps out. topologically_distinct_diagrams [?c1, ?c2] = Inr reps
        \<and> topologically_distinct_diagrams [?d, ?c1', ?c2'] = Inr out \<and> ?P reps out")
proof -
  have reps_value: "topologically_distinct_diagrams [?c1, ?c2] = Inr [?c1, ?c2]" by code_simp
  have first: "matched ?d ?c1" by code_simp
  have second: "\<not> matched ?d ?c2" by code_simp
  have one_tag: "list_all (\<lambda>x. length (tags x) = 1) [?d, ?c1, ?c2]" by simp
  have tag_values: "tags ?d = [0]" "tags ?c1 = [1]" "tags ?c2 = [2]" by simp_all
  have plain: "cls ?d = Diagram" "cls ?c1 = Diagram" "cls ?c2 = Diagram" by simp_all
  define d c1 c2 where "d = ?d" and "c1 = ?c1" and "c2 = ?c2"
  note defs = d_def c1_def c2_def
  have chk: "checkable [c1, c2]" "checkable [d, c1, c2]"
    unfolding checkable_def defs using plain by simp_all
  note rest = topologically_distinct_diagrams_tags [of "[c1, c2]"]
    and whole = topologically_distinct_diagrams_tags [of "[d, c1, c2]"]
  from rest chk(1) obtain reps where r1: "topologically_distinct_diagrams [c1, c2] = Inr reps"
    by blast
  from whole chk(2) obtain out where r2: "topologically_distinct_diagrams [d, c1, c2] = Inr out"
    by blast
  from whole r2 have m: "mset (all_tags out) = mset (all_tags [d, c1, c2])"
    and total: "list_all (\<lambda>x. length (tags x) = 1) [d, c1, c2] \<longrightarrow>
        sum_list (map (\<lambda>x. length (tags x)) out) = length [d, c1, c2]"
    by blast+
  from rest r1 r2 have merge: "\<forall>pre c post.
        reps = pre @ c # post \<and> matched d c \<and> (\<forall>x\<in>set post. \<not> matched d x) \<longrightarrow>
        out = d\<lparr>tags := tags d @ tags c\<rparr> # pre @ post"
    by blast
  from r1 reps_value have reps: "reps = [c1, c2]" unfolding defs by simp
  have "reps = [] @ c1 # [c2] \<and> matched d c1 \<and> (\<forall>x\<in>set [c2]. \<not> matched d x)"
    using reps first second unfolding defs by simp
  with merge have "out = d\<lparr>tags := tags d @ tags c1\<rparr> # [] @ [c2]" by blast
  then have tags_out: "map tags out = [[0, 1], [2]]"
    using tag_values unfolding defs by simp
  have tags_reps: "map tags reps = [[1], [2]]"
    using reps tag_values unfolding defs by simp
  have "mset (all_tags [d, c1, c2]) = {#0, 1, 2#}"
    using tag_values unfolding defs by (simp add: all_tags_def)
  with m have m3: "mset (all_tags out) = {#0, 1, 2#}" by (simp only:)
  from total one_tag have s3: "sum_list (map (\<lambda>x. length (tags x)) out) = 3"
    unfolding defs by simp
  from r1 r2 tags_reps tags_out m3 s3 have "topologically_distinct_diagrams [c1, c2] = Inr reps
      \<and> topologically_distinct_diagrams [d, c1, c2] = Inr out \<and> ?P reps out"
    by simp
  then have "\<exists>out. topologically_distinct_diagrams [c1, c2] = Inr reps
      \<and> topologically_distinct_diagrams [d, c1, c2] = Inr out \<and> ?P reps out"
    by (rule exI)
  then have "\<exists>reps out. topologically_distinct_diagrams [c1, c2] = Inr reps
      \<and> topologically_distinct_diagrams [d, c1, c2] = Inr out \<and> ?P reps out"
    by (rule exI)
  then show ?thesis unfolding defs .
qed


section \<open>The matcher decides an equivalence\<close>

lemma itertools_permutations_Cons_mem:
  "ys \<in> set (itertools_permutations (x # xs)) \<longleftrightarrow>
   (\<exists>i<length (x # xs). \<exists>zs\<in>set (itertools_permutations (delete_at i (x # xs))).
      ys = (x # xs) ! i # zs)"
proof -
  have "set (itertools_permutations (x # xs)) =
      (\<Union>i\<in>set [0..<length (x # xs)].
         (#) ((x # xs) ! i) ` set (itertools_permutations (delete_at i (x # xs))))"
    by (simp del: upt_Suc)
  also have "set [0..<length (x # xs)] = {i. i < length (x # xs)}"
    by (auto simp del: upt_Suc)
  finally show ?thesis by blast
qed

lemma itertools_permutations_complete:
  "mset ys = mset xs \<Longrightarrow> ys \<in> set (itertools_permutations xs)"
proof (induction xs arbitrary: ys rule: itertools_permutations.induct)
  case 1
  then show ?case by simp
next
  case (2 x xs)
  from "2.prems" have "ys \<noteq> []" by auto
  then obtain y zs where ys: "ys = y # zs" by (cases ys) auto
  have "y \<in># mset (x # xs)" using "2.prems" ys by (metis list.set_intros(1) set_mset_mset)
  then have "y \<in> set (x # xs)" by simp
  then obtain i where i: "i < length (x # xs)" "(x # xs) ! i = y"
    by (metis in_set_conv_nth)
  have "add_mset y (mset zs) = add_mset y (mset (delete_at i (x # xs)))"
    using "2.prems" ys mset_delete_at [OF i(1)] i(2) by simp
  then have zs: "mset zs = mset (delete_at i (x # xs))" by simp
  have mem: "i \<in> set [0..<length (x # xs)]" using i(1) by (simp del: upt_Suc)
  have "zs \<in> set (itertools_permutations (delete_at i (x # xs)))"
    using "2.IH" [OF mem zs] .
  then show ?case
    unfolding itertools_permutations_Cons_mem using i ys by blast
qed

lemma permutation_list_iff:
  "p \<in> set (itertools_permutations [0..<n]) \<longleftrightarrow> length p = n \<and> distinct p \<and> set p = {0..<n}"
proof
  assume "p \<in> set (itertools_permutations [0..<n])"
  then have "p \<in> set (seed n)" by (simp add: seed_def)
  then show "length p = n \<and> distinct p \<and> set p = {0..<n}"
    using seed_permutation by blast
next
  assume p: "length p = n \<and> distinct p \<and> set p = {0..<n}"
  then have "mset p = mset [0..<n]"
    using set_eq_iff_mset_eq_distinct [of p "[0..<n]"] by simp
  then show "p \<in> set (itertools_permutations [0..<n])"
    by (rule itertools_permutations_complete)
qed

lemma is_isomorphism_iff:
  "is_isomorphism nm em g1 g2 p \<longleftrightarrow>
   (\<forall>u\<in>{0..<number_of_nodes g1}.
      (nm \<longrightarrow> operator_value g1 u = operator_value g2 (p ! u))
      \<and> (\<forall>v\<in>{0..<number_of_nodes g1}.
            edge_count g1 u v = edge_count g2 (p ! u) (p ! v)
            \<and> (em \<longrightarrow> anomalous_values g1 u v = anomalous_values g2 (p ! u) (p ! v))))"
  by (auto simp: is_isomorphism_def list_all_iff)

lemma is_isomorphic_iff:
  "is_isomorphic nm em g1 g2 \<longleftrightarrow> (\<exists>f. isomorphism_on nm em g1 g2 f)"
proof
  assume "is_isomorphic nm em g1 g2"
  then obtain p where n: "number_of_nodes g1 = number_of_nodes g2"
    and p: "p \<in> set (itertools_permutations [0..<number_of_nodes g1])"
    and iso: "is_isomorphism nm em g1 g2 p"
    by (auto simp: is_isomorphic_def list_ex_iff)
  let ?n = "number_of_nodes g1"
  from p have lp: "length p = ?n" "distinct p" "set p = {0..<?n}"
    by (simp_all add: permutation_list_iff)
  have inj: "inj_on ((!) p) {0..<?n}"
    using lp(1,2) by (auto simp: inj_on_def nth_eq_iff_index_eq)
  have img: "(!) p ` {0..<?n} = {0..<?n}"
    using lp(1,3) by (metis atLeast0LessThan lessThan_iff list.set_map map_nth set_upt)
  have "bij_betw ((!) p) {0..<?n} {0..<?n}"
    using inj img by (simp add: bij_betw_def)
  then have "isomorphism_on nm em g1 g2 ((!) p)"
    using n iso by (simp add: isomorphism_on_def is_isomorphism_iff)
  then show "\<exists>f. isomorphism_on nm em g1 g2 f" by blast
next
  assume "\<exists>f. isomorphism_on nm em g1 g2 f"
  then obtain f where f: "isomorphism_on nm em g1 g2 f" ..
  let ?n = "number_of_nodes g1"
  let ?p = "map f [0..<?n]"
  from f have bij: "bij_betw f {0..<?n} {0..<?n}" and n: "?n = number_of_nodes g2"
    unfolding isomorphism_on_def by blast+
  have "distinct ?p"
    using bij by (simp add: distinct_map bij_betw_def)
  moreover have "set ?p = {0..<?n}"
    using bij by (simp add: bij_betw_def)
  ultimately have p: "?p \<in> set (itertools_permutations [0..<?n])"
    by (simp add: permutation_list_iff)
  have "is_isomorphism nm em g1 g2 ?p"
    using f by (simp add: isomorphism_on_def is_isomorphism_iff)
  with p n show "is_isomorphic nm em g1 g2"
    by (auto simp: is_isomorphic_def list_ex_iff)
qed

lemma isomorphism_on_sym:
  assumes "isomorphism_on nm em g1 g2 f"
  shows "isomorphism_on nm em g2 g1 (inv_into {0..<number_of_nodes g1} f)"
proof -
  let ?A = "{0..<number_of_nodes g1}"
  let ?f' = "inv_into ?A f"
  from assms have n: "number_of_nodes g1 = number_of_nodes g2" and bij: "bij_betw f ?A ?A"
    and pres: "\<forall>u\<in>?A. (nm \<longrightarrow> operator_value g1 u = operator_value g2 (f u))
          \<and> (\<forall>v\<in>?A. edge_count g1 u v = edge_count g2 (f u) (f v)
                \<and> (em \<longrightarrow> anomalous_values g1 u v = anomalous_values g2 (f u) (f v)))"
    unfolding isomorphism_on_def by blast+
  have bij': "bij_betw ?f' ?A ?A" using bij by (rule bij_betw_inv_into)
  have inv_at: "?f' u \<in> ?A" "f (?f' u) = u" if "u \<in> ?A" for u
    using bij' bij that by (auto simp: bij_betw_def f_inv_into_f)
  have "(nm \<longrightarrow> operator_value g2 u = operator_value g1 (?f' u))
      \<and> (\<forall>v\<in>?A. edge_count g2 u v = edge_count g1 (?f' u) (?f' v)
            \<and> (em \<longrightarrow> anomalous_values g2 u v = anomalous_values g1 (?f' u) (?f' v)))"
    if u: "u \<in> ?A" for u
  proof (intro conjI ballI impI)
    assume nm
    then show "operator_value g2 u = operator_value g1 (?f' u)"
      using pres inv_at [OF u] by metis
  next
    fix v assume v: "v \<in> ?A"
    show "edge_count g2 u v = edge_count g1 (?f' u) (?f' v)"
      using pres inv_at [OF u] inv_at [OF v] by metis
  next
    fix v assume v: "v \<in> ?A" and em
    then show "anomalous_values g2 u v = anomalous_values g1 (?f' u) (?f' v)"
      using pres inv_at [OF u] inv_at [OF v] by metis
  qed
  then have "\<forall>u\<in>?A. (nm \<longrightarrow> operator_value g2 u = operator_value g1 (?f' u))
      \<and> (\<forall>v\<in>?A. edge_count g2 u v = edge_count g1 (?f' u) (?f' v)
            \<and> (em \<longrightarrow> anomalous_values g2 u v = anomalous_values g1 (?f' u) (?f' v)))"
    by blast
  with bij' show ?thesis
    unfolding isomorphism_on_def by (simp add: n [symmetric])
qed


lemma is_isomorphic_sym: "is_isomorphic nm em g1 g2 \<Longrightarrow> is_isomorphic nm em g2 g1"
  unfolding is_isomorphic_iff using isomorphism_on_sym by blast





section \<open>The output of the canonicalizer\<close>








section \<open>The signature test rejects no isomorphic pair\<close>













text \<open>
  Without the attribute on the propagators of a \<open>ProjectedBmbptDiagram\<close> the test raises:
  the canonicalizer does not return.
\<close>

lemma topologically_distinct_diagrams_key_error:
  "topologically_distinct_diagrams
     [\<lparr>cls = ProjectedBmbptDiagram,
       graph = \<lparr>node_operator = [Some True, Some False], edges = [(1, 0, None), (1, 0, None)]\<rparr>,
       unsort_degrees = [2, 2], degrees = [2, 2], unsort_io_degrees = [(2, 0), (0, 2)],
       io_degrees = [(0, 2), (2, 0)], max_degree = 2, tags = [0]\<rparr>,
      \<lparr>cls = ProjectedBmbptDiagram,
       graph = \<lparr>node_operator = [Some True, Some False], edges = [(1, 0, None), (1, 0, None)]\<rparr>,
       unsort_degrees = [2, 2], degrees = [2, 2], unsort_io_degrees = [(2, 0), (0, 2)],
       io_degrees = [(0, 2), (2, 0)], max_degree = 2, tags = [1]\<rparr>]
   = Inl KeyError"
  by code_simp


section \<open>The constructor and the hypotheses of the canonicalizer\<close>

text \<open>
  A diagram built by the constructor carries exactly one tag, is a plain \<open>Diagram\<close>, and
  its cached signature is the one of its graph.
\<close>

lemma Diagram_init_properties:
  assumes "Diagram_init gr = Inr d"
  shows "tags d = [0]" "cls d = Diagram" "graph d = gr" "io_degrees d = io_degrees_of gr"
    "0 < number_of_nodes gr"
  using assms by (auto simp: Diagram_init_def split: if_splits)

lemma from_numpy_matrix_well_formed:
  assumes "from_numpy_matrix a = Inr gr"
  shows "well_formed_graph gr"
proof -
  from assms have gr: "gr = \<lparr>node_operator = replicate (length a) None,
      edges = concat (map (\<lambda>u. concat (map (\<lambda>v. replicate (nat (a ! u ! v)) (u, v, None))
                                        [0..<length a])) [0..<length a])\<rparr>"
    by (simp add: from_numpy_matrix_def split: if_splits)
  show ?thesis
    unfolding well_formed_graph_def list_all_iff gr number_of_nodes_def by auto
qed

section \<open>The reduction loop of the script\<close>

text \<open>
  The reduction loop of adg.py has the two properties of the canonicalizer as well: no two
  graphs of its result are isomorphic under the matcher it uses (the operator flags kept
  unless the norm is studied), and the loop returns its own result unchanged.
\<close>

lemma label_operator_twice:
  assumes "label_operator diag = Inr labelled"
  shows "label_operator labelled = Inr labelled"
proof -
  from assms have n: "number_of_nodes diag \<noteq> 0"
    and l: "labelled = diag\<lparr>node_operator := (map (\<lambda>_. Some False) (node_operator diag))[0 := Some True]\<rparr>"
    by (simp_all add: label_operator_def split: if_splits)
  have "(map (\<lambda>_. Some False) ((map (\<lambda>_. Some False) xs)[0 := Some True]))[0 := Some True]
      = (map (\<lambda>_. Some False) xs)[0 := Some True]" for xs :: "bool option list"
    by (cases xs) simp_all
  with n show ?thesis by (simp add: l label_operator_def number_of_nodes_def)
qed

lemma isomorphism_reduction_reduced:
  assumes "isomorphism_reduction norm ds G1 = Inr out" "reduced norm G1"
  shows "reduced norm out"
  using assms
proof (induction ds arbitrary: G1)
  case Nil
  then show ?case by simp
next
  case (Cons diag rest)
  from Cons.prems(1) obtain labelled where
    lab: "(if norm = False then label_operator diag else Inr diag) = Inr labelled"
    by (auto split: sum.splits)
  have again: "(if norm = False then label_operator labelled else Inr labelled) = Inr labelled"
    using lab label_operator_twice [of diag labelled] by (auto split: if_splits)
  let ?next = "if G1 = [] then G1 @ [labelled]
     else if list_ex (\<lambda>good_diag. is_isomorphic (\<not> norm) False labelled good_diag) G1 then G1
     else G1 @ [labelled]"
  from Cons.prems(1) have run: "isomorphism_reduction norm rest ?next = Inr out"
    by (simp only: isomorphism_reduction.simps lab sum.case)
  have "reduced norm ?next"
    using Cons.prems(2) again
    by (auto simp: reduced_def sorted_wrt_append list_ex_iff)
  with run show ?case by (rule Cons.IH)
qed

lemma isomorphism_reduction_fixed:
  assumes "reduced norm (G1 @ ds)"
  shows "isomorphism_reduction norm ds G1 = Inr (G1 @ ds)"
  using assms
proof (induction ds arbitrary: G1)
  case Nil
  show ?case by simp
next
  case (Cons diag rest)
  from Cons.prems have lab: "(if norm = False then label_operator diag else Inr diag) = Inr diag"
    and apart: "\<forall>good_diag\<in>set G1. \<not> is_isomorphic (\<not> norm) False diag good_diag"
    by (simp_all add: reduced_def sorted_wrt_append)
  have next_list: "(if G1 = [] then G1 @ [diag]
     else if list_ex (\<lambda>good_diag. is_isomorphic (\<not> norm) False diag good_diag) G1 then G1
     else G1 @ [diag]) = G1 @ [diag]"
    using apart by (simp add: list_ex_iff)
  from Cons.prems have "reduced norm ((G1 @ [diag]) @ rest)" by simp
  from Cons.IH [OF this] show ?case
    by (simp only: isomorphism_reduction.simps lab sum.case next_list) simp
qed

lemma isomorphism_reduction_canonical:
  assumes "isomorphism_reduction norm ds [] = Inr out"
  shows "sorted_wrt (\<lambda>a b. \<not> is_isomorphic (\<not> norm) False a b) out"
    and "isomorphism_reduction norm out [] = Inr out"
proof -
  have "reduced norm []" by (simp add: reduced_def)
  with assms have r: "reduced norm out" by (rule isomorphism_reduction_reduced)
  then have "sorted_wrt (\<lambda>a b. \<not> is_isomorphic (\<not> norm) False b a) out"
    by (simp add: reduced_def)
  then show "sorted_wrt (\<lambda>a b. \<not> is_isomorphic (\<not> norm) False a b) out"
    by (rule sorted_wrt_mono_rel [rotated]) (blast dest: is_isomorphic_sym)
  from r have "reduced norm ([] @ out)" by simp
  then show "isomorphism_reduction norm out [] = Inr out"
    using isomorphism_reduction_fixed [of norm "[]" out] by simp
qed

section \<open>The degree check of the script\<close>

lemma sum_out_in_square:
  assumes "square m" "i < length m" "\<forall>j\<in>set js. j < length m"
  shows "sum_out_in m i js acc = Inr (acc + sum_list (map (\<lambda>j. m ! i ! j + m ! j ! i) js))"
  using assms(3)
proof (induction js arbitrary: acc)
  case Nil
  show ?case by simp
next
  case (Cons j js)
  from Cons.prems have j: "j < length m" and rest: "\<forall>k\<in>set js. k < length m" by simp_all
  show ?case
    using Cons.IH [OF rest] entry_square [OF assms(1) assms(2) j]
      entry_square [OF assms(1) j assms(2)]
    by simp
qed

lemma check_degree_test_square:
  assumes "square m" "\<forall>i\<in>set idx. i < length m"
  shows "check_degree_test three_N m (length m) idx =
    Inr (\<forall>i\<in>set idx. \<not> degree_refused three_N (total_degree m i))"
  using assms(2)
proof (induction idx)
  case Nil
  show ?case by simp
next
  case (Cons i idx)
  from Cons.prems have i: "i < length m" and rest: "\<forall>k\<in>set idx. k < length m" by simp_all
  have js: "\<forall>j\<in>set [0..<length m]. j < length m" by simp
  have "sum_out_in m i [0..<length m] 0 = Inr (total_degree m i)"
    using sum_out_in_square [OF assms(1) i js, of 0]
    by (simp add: total_degree_def in_degree_mat_def out_degree_mat_def sum_list_map_add)
  then show ?case
    using Cons.IH [OF rest] by simp
qed

text \<open>
  \<open>check_degree\<close> of adg.py keeps exactly the matrices where every vertex, vertex 0
  included, has total degree 2 or 4, or 6 with three-body vertices.
\<close>

lemma check_degree_keeps:
  assumes "\<forall>m\<in>set ms. m \<noteq> [] \<and> square m"
  shows "check_degree ms three_N =
    Inr (filter (\<lambda>m. \<forall>i\<in>{0..<length m}. \<not> degree_refused three_N (total_degree m i)) ms)"
  using assms
proof (induction ms)
  case Nil
  show ?case by simp
next
  case (Cons m ms)
  from Cons.prems have m: "m \<noteq> []" "square m" and rest: "\<forall>k\<in>set ms. k \<noteq> [] \<and> square k"
    by simp_all
  obtain row tl where mt: "m = row # tl" using m(1) by (cases m) auto
  have len: "length row = length m" using m(2) by (simp add: mt square_def)
  have idx: "\<forall>i\<in>set [0..<length m]. i < length m" by simp
  have "(case m of [] \<Rightarrow> Inl IndexError
          | row # _ \<Rightarrow> check_degree_test three_N m (length row) [0..<length row])
      = check_degree_test three_N m (length row) [0..<length row]"
    by (subst mt) (simp only: list.case)
  also have "\<dots> = check_degree_test three_N m (length m) [0..<length m]"
    by (simp only: len)
  also have "\<dots> = Inr (\<forall>i\<in>{0..<length m}. \<not> degree_refused three_N (total_degree m i))"
    using check_degree_test_square [OF m(2) idx, of three_N] by (simp only: set_upt)
  finally have "(case m of [] \<Rightarrow> Inl IndexError
          | row # _ \<Rightarrow> check_degree_test three_N m (length row) [0..<length row])
      = Inr (\<forall>i\<in>{0..<length m}. \<not> degree_refused three_N (total_degree m i))" .
  then show ?case
    using Cons.IH [OF rest] by simp
qed

lemma check_degree_keeps_example:
  "check_degree [[[0, 0], [4, 0]], [[0, 0], [3, 0]], [[0, 0], [2, 0]]] False
     = Inr [[[0, 0], [4, 0]], [[0, 0], [2, 0]]]"
proof -
  let ?ms = "[[[0, 0], [4, 0]], [[0, 0], [3, 0]], [[0, 0], [2, 0::int]]]"
  have pre: "\<forall>m\<in>set ?ms. m \<noteq> [] \<and> square m" by (simp add: square_def)
  have kept: "filter (\<lambda>m. \<forall>i\<in>{0..<length m}. \<not> degree_refused False (total_degree m i)) ?ms
      = [[[0, 0], [4, 0]], [[0, 0], [2, 0]]]"
    by code_simp
  show ?thesis
    by (rule trans [OF check_degree_keeps [OF pre]]) (simp only: kept)
qed

section \<open>The dump of the script\<close>

text \<open>
  C9 fails on the code of adg.py. For MBPT at order 2 the script writes the header
  \<open>Diagram n: 0\<close> without a newline and the entries in exponent notation: the header and
  the first row of the matrix share a line, no entry is written as an integer, and the
  reader of the format of the specification refuses the text. The writer of adg/diag.py
  (third and fourth conjunct, on the same diagram) writes a header line of its own and
  integers, and its text reads back to the matrix.
\<close>

theorem diagrams_list_glues_header:
  "map_sum id diagrams_list (generate ''MBPT'' 2 False False)
     = Inr ''Diagram n: 00.000000000000000000e+00 2.000000000000000000e+00\<newline>2.000000000000000000e+00 0.000000000000000000e+00\<newline>\<newline>''
   \<and> parse_dump ''Diagram n: 00.000000000000000000e+00 2.000000000000000000e+00\<newline>2.000000000000000000e+00 0.000000000000000000e+00\<newline>\<newline>''
     = None
   \<and> map_sum id (\<lambda>gr. map_sum id (\<lambda>d. print_adj_matrices [d]) (Diagram_init gr))
       (from_numpy_matrix [[0, 2], [2, 0]])
     = Inr (Inr ''Diagram n: 1\<newline>0 2\<newline>2 0\<newline>\<newline>'')
   \<and> parse_dump ''Diagram n: 1\<newline>0 2\<newline>2 0\<newline>\<newline>'' = Some [(1, [[0, 2], [2, 0]])]"
  by code_simp


end
